theory Spec2Isabelle
  imports Main "HOL-Library.Word"
begin

section \<open>The asynchronous value cell of qt-async\<close>

text \<open>
  The development embeds \<^verbatim>\<open>AsyncValueTemplate<ValueType, ErrorType, ProgressType>\<close>
  (\<^verbatim>\<open>qt-async-lib/values/AsyncValueTemplate.h\<close>) and the members it inherits from
  \<^verbatim>\<open>AsyncValueBase\<close> (\<^verbatim>\<open>AsyncValueBase.h\<close>).

  Conventions of the embedding.
  \<^item> A \<^verbatim>\<open>std::unique_ptr<T>\<close> is a \<open>T option\<close>; \<open>None\<close> is the null pointer. The
    progress instance is compared by address in \<^verbatim>\<open>stopProgress\<close>, so a
    \<^verbatim>\<open>std::unique_ptr<ProgressType>\<close> carries the address of its object as well, and a raw
    \<^verbatim>\<open>ProgressType*\<close> is an \<open>addr option\<close>.
  \<^item> Dereferencing a null pointer is the error \<open>NullDeref\<close>.
  \<^item> \<^verbatim>\<open>Q_ASSERT\<close> expands to nothing when \<^verbatim>\<open>QT_NO_DEBUG\<close> is defined; the model is
    that build, in which a violated contract shows as the failure value the source returns
    after the assertion.
  \<^item> Every mutator holds \<^verbatim>\<open>m_writeLock\<close> from its first statement to its return, and
    writes the content under \<^verbatim>\<open>m_contentLock\<close>; each mutator is therefore one atomic
    transition of the cell. The two locks carry no further state in the model.
  \<^item> A callable passed to \<^verbatim>\<open>access\<close> or \<^verbatim>\<open>wait\<close> is a function from the payload it is
    given to a transformer of the caller's own state \<open>'s\<close>; the content lock is held in
    read mode while it runs, and callables that write through the reference are outside
    the model.
\<close>

subsection \<open>Data\<close>

datatype ASYNC_VALUE_STATE = VALUE | ERROR | PROGRESS

datatype error = NullDeref

type_synonym addr = nat

type_synonym tid = nat

text \<open>A \<^verbatim>\<open>QWaitCondition\<close> is the list of the threads that sleep on it.\<close>

type_synonym QWaitCondition = "tid list"

record Waiter =
  waitValue :: QWaitCondition
  subWaiters :: "16 word"
  waitSubWaiters :: QWaitCondition

record ('v, 'e) Content =
  "value" :: "'v option"
  error :: "'e option"

text \<open>
  The field \<open>stateChanged\<close> is the sequence of \<^verbatim>\<open>stateChanged(ASYNC_VALUE_STATE)\<close> signals
  emitted so far.
\<close>

record ('v, 'e, 'p) AsyncValueTemplate =
  m_state :: ASYNC_VALUE_STATE
  m_waiter :: "Waiter option"
  m_content :: "('v, 'e) Content"
  m_progress :: "(addr \<times> 'p) option"
  stateChanged :: "ASYNC_VALUE_STATE list"

text \<open>The calls a caller's callables can receive, for callables that record them.\<close>

datatype ('v, 'e, 'p) call = ValueCall 'v | ErrorCall 'e | ProgressCall 'p

subsection \<open>Construction and mutation\<close>

text \<open>A default-constructed \<^verbatim>\<open>Content\<close>, which is also what \<^verbatim>\<open>std::move(m_content)\<close> leaves behind.\<close>

definition Content_empty :: "('v, 'e) Content" where
  "Content_empty = \<lparr>value = None, error = None\<rparr>"

text \<open>\<^verbatim>\<open>m_progress.get()\<close>\<close>

definition get :: "(addr \<times> 'p) option \<Rightarrow> addr option" where
  "get up = map_option fst up"

text \<open>
  Modelled from the spec: the body of the constructor \<^verbatim>\<open>AsyncValueBase(state, parent)\<close>
  is in \<^verbatim>\<open>AsyncValueBase.cpp\<close>, which is not part of the sources at hand. It stores the
  state tag; the other members take their default initialisers (\<^verbatim>\<open>m_waiter = nullptr\<close>,
  empty smart pointers).
\<close>

definition AsyncValueBase :: "ASYNC_VALUE_STATE \<Rightarrow> ('v, 'e, 'p) AsyncValueTemplate" where
  "AsyncValueBase st =
     \<lparr>m_state = st, m_waiter = None, m_content = Content_empty, m_progress = None,
      stateChanged = []\<rparr>"

text \<open>
  Modelled from the spec: \<^verbatim>\<open>emitStateChanged\<close> is defined outside the sources at hand.
  After every successful mutation it delivers one event carrying the new state tag.
\<close>

definition emitStateChanged ::
  "('v, 'e, 'p) AsyncValueTemplate \<Rightarrow> ('v, 'e, 'p) AsyncValueTemplate" where
  "emitStateChanged c = c\<lparr>stateChanged := stateChanged c @ [m_state c]\<rparr>"

text \<open>\<^verbatim>\<open>QWaitCondition::wakeAll\<close>: no thread sleeps on the condition any more.\<close>

definition wakeAll :: "QWaitCondition \<Rightarrow> QWaitCondition" where
  "wakeAll q = []"

text \<open>\<^verbatim>\<open>if (m_waiter) m_waiter->waitValue.wakeAll();\<close>\<close>

definition notify_waiters ::
  "('v, 'e, 'p) AsyncValueTemplate \<Rightarrow> ('v, 'e, 'p) AsyncValueTemplate" where
  "notify_waiters c =
     (case m_waiter c of
        None \<Rightarrow> c
      | Some w \<Rightarrow> c\<lparr>m_waiter := Some (w\<lparr>waitValue := wakeAll (waitValue w)\<rparr>)\<rparr>)"

definition moveValue ::
  "'v option \<Rightarrow> ('v, 'e, 'p) AsyncValueTemplate \<Rightarrow> ('v, 'e, 'p) AsyncValueTemplate" where
  "moveValue v c =
     notify_waiters (emitStateChanged
       (c\<lparr>m_content := Content_empty\<lparr>value := v\<rparr>, m_state := VALUE\<rparr>))"

definition emplaceValue ::
  "'v \<Rightarrow> ('v, 'e, 'p) AsyncValueTemplate \<Rightarrow> ('v, 'e, 'p) AsyncValueTemplate" where
  "emplaceValue v c = moveValue (Some v) c"

definition moveError ::
  "'e option \<Rightarrow> ('v, 'e, 'p) AsyncValueTemplate \<Rightarrow> ('v, 'e, 'p) AsyncValueTemplate" where
  "moveError e c =
     notify_waiters (emitStateChanged
       (c\<lparr>m_content := Content_empty\<lparr>error := e\<rparr>, m_state := ERROR\<rparr>))"

definition emplaceError ::
  "'e \<Rightarrow> ('v, 'e, 'p) AsyncValueTemplate \<Rightarrow> ('v, 'e, 'p) AsyncValueTemplate" where
  "emplaceError e c = moveError (Some e) c"

text \<open>The two public constructors, tagged \<^verbatim>\<open>AsyncInitByValue\<close> and \<^verbatim>\<open>AsyncInitByError\<close>.\<close>

definition AsyncInitByValue :: "'v \<Rightarrow> ('v, 'e, 'p) AsyncValueTemplate" where
  "AsyncInitByValue v = emplaceValue v (AsyncValueBase VALUE)"

definition AsyncInitByError :: "'e \<Rightarrow> ('v, 'e, 'p) AsyncValueTemplate" where
  "AsyncInitByError e = emplaceError e (AsyncValueBase ERROR)"

text \<open>
  \<^verbatim>\<open>startProgressMove\<close> returns the raw pointer to the progress instance, null when the
  cell is already in progress.
\<close>

definition startProgressMove ::
  "(addr \<times> 'p) option \<Rightarrow> ('v, 'e, 'p) AsyncValueTemplate
     \<Rightarrow> addr option \<times> ('v, 'e, 'p) AsyncValueTemplate" where
  "startProgressMove progress c =
     (if m_state c = PROGRESS then (None, c)
      else
        let c' = emitStateChanged
                   (c\<lparr>m_content := Content_empty, m_progress := progress, m_state := PROGRESS\<rparr>)
        in (get (m_progress c'), c'))"

text \<open>\<^verbatim>\<open>std::make_unique\<close> allocates the instance; \<open>a\<close> is the address it gets.\<close>

definition startProgressEmplace ::
  "addr \<Rightarrow> 'p \<Rightarrow> ('v, 'e, 'p) AsyncValueTemplate
     \<Rightarrow> addr option \<times> ('v, 'e, 'p) AsyncValueTemplate" where
  "startProgressEmplace a p c = startProgressMove (Some (a, p)) c"

definition stopProgress ::
  "addr option \<Rightarrow> ('v, 'e, 'p) AsyncValueTemplate \<Rightarrow> bool \<times> ('v, 'e, 'p) AsyncValueTemplate" where
  "stopProgress progress c =
     (if progress \<noteq> None \<and> progress \<noteq> get (m_progress c) then (False, c)
      else if m_state c = PROGRESS then (False, c)
      else (True, c\<lparr>m_progress := None\<rparr>))"

subsection \<open>Reading\<close>

text \<open>\<^verbatim>\<open>access(valuePred, errorPred, progressPred)\<close>\<close>

definition access ::
  "('v \<Rightarrow> 's \<Rightarrow> 's) \<Rightarrow> ('e \<Rightarrow> 's \<Rightarrow> 's) \<Rightarrow> ('p \<Rightarrow> 's \<Rightarrow> 's)
     \<Rightarrow> ('v, 'e, 'p) AsyncValueTemplate \<Rightarrow> 's \<Rightarrow> error + 's" where
  "access valuePred errorPred progressPred c s =
     (case m_state c of
        VALUE \<Rightarrow>
          (case value (m_content c) of None \<Rightarrow> Inl NullDeref | Some v \<Rightarrow> Inr (valuePred v s))
      | ERROR \<Rightarrow>
          (case error (m_content c) of None \<Rightarrow> Inl NullDeref | Some e \<Rightarrow> Inr (errorPred e s))
      | PROGRESS \<Rightarrow>
          (case m_progress c of None \<Rightarrow> Inl NullDeref | Some (a, p) \<Rightarrow> Inr (progressPred p s)))"

text \<open>\<^verbatim>\<open>bool access(valuePred, errorPred)\<close>\<close>

definition access_value_error ::
  "('v \<Rightarrow> 's \<Rightarrow> 's) \<Rightarrow> ('e \<Rightarrow> 's \<Rightarrow> 's)
     \<Rightarrow> ('v, 'e, 'p) AsyncValueTemplate \<Rightarrow> 's \<Rightarrow> error + bool \<times> 's" where
  "access_value_error valuePred errorPred c s =
     (case m_state c of
        VALUE \<Rightarrow>
          (case value (m_content c) of
             None \<Rightarrow> Inl NullDeref | Some v \<Rightarrow> Inr (True, valuePred v s))
      | ERROR \<Rightarrow>
          (case error (m_content c) of
             None \<Rightarrow> Inl NullDeref | Some e \<Rightarrow> Inr (True, errorPred e s))
      | PROGRESS \<Rightarrow> Inr (False, s))"

text \<open>\<^verbatim>\<open>bool access(valuePred)\<close>\<close>

definition access_value ::
  "('v \<Rightarrow> 's \<Rightarrow> 's) \<Rightarrow> ('v, 'e, 'p) AsyncValueTemplate \<Rightarrow> 's \<Rightarrow> error + bool \<times> 's" where
  "access_value valuePred c s =
     (if m_state c \<noteq> VALUE then Inr (False, s)
      else case value (m_content c) of
             None \<Rightarrow> Inl NullDeref | Some v \<Rightarrow> Inr (True, valuePred v s))"

definition accessError ::
  "('e \<Rightarrow> 's \<Rightarrow> 's) \<Rightarrow> ('v, 'e, 'p) AsyncValueTemplate \<Rightarrow> 's \<Rightarrow> error + bool \<times> 's" where
  "accessError errorPred c s =
     (if m_state c \<noteq> ERROR then Inr (False, s)
      else case error (m_content c) of
             None \<Rightarrow> Inl NullDeref | Some e \<Rightarrow> Inr (True, errorPred e s))"

definition accessProgress ::
  "('p \<Rightarrow> 's \<Rightarrow> 's) \<Rightarrow> ('v, 'e, 'p) AsyncValueTemplate \<Rightarrow> 's \<Rightarrow> error + bool \<times> 's" where
  "accessProgress progressPred c s =
     (if m_state c \<noteq> PROGRESS then Inr (False, s)
      else case m_progress c of
             None \<Rightarrow> Inl NullDeref | Some (a, p) \<Rightarrow> Inr (True, progressPred p s))"

text \<open>Callables that append the call they receive to a log.\<close>

definition logValue :: "'v \<Rightarrow> ('v, 'e, 'p) call list \<Rightarrow> ('v, 'e, 'p) call list" where
  "logValue v l = l @ [ValueCall v]"

definition logError :: "'e \<Rightarrow> ('v, 'e, 'p) call list \<Rightarrow> ('v, 'e, 'p) call list" where
  "logError e l = l @ [ErrorCall e]"

definition logProgress :: "'p \<Rightarrow> ('v, 'e, 'p) call list \<Rightarrow> ('v, 'e, 'p) call list" where
  "logProgress p l = l @ [ProgressCall p]"

subsection \<open>Sequences of mutations\<close>

text \<open>
  The mutators of the public interface that allocate their argument themselves, so that
  the smart pointer they hand over is never null.
\<close>

datatype ('v, 'e, 'p) mutation =
    EmplaceValue 'v
  | EmplaceError 'e
  | StartProgressEmplace addr 'p
  | StopProgress "addr option"

fun mutate ::
  "('v, 'e, 'p) mutation \<Rightarrow> ('v, 'e, 'p) AsyncValueTemplate \<Rightarrow> ('v, 'e, 'p) AsyncValueTemplate" where
  "mutate (EmplaceValue v) c = emplaceValue v c"
| "mutate (EmplaceError e) c = emplaceError e c"
| "mutate (StartProgressEmplace a p) c = snd (startProgressEmplace a p c)"
| "mutate (StopProgress h) c = snd (stopProgress h c)"

fun mutate_all ::
  "('v, 'e, 'p) mutation list \<Rightarrow> ('v, 'e, 'p) AsyncValueTemplate
     \<Rightarrow> ('v, 'e, 'p) AsyncValueTemplate" where
  "mutate_all [] c = c"
| "mutate_all (m # ms) c = mutate_all ms (mutate m c)"

text \<open>
  The content matches the state tag: the payload the tag announces is there, and the slot
  of the other settled variant is empty.
\<close>

definition content_matches_state :: "('v, 'e, 'p) AsyncValueTemplate \<Rightarrow> bool" where
  "content_matches_state c =
     (case m_state c of
        VALUE \<Rightarrow> value (m_content c) \<noteq> None \<and> error (m_content c) = None
      | ERROR \<Rightarrow> error (m_content c) \<noteq> None \<and> value (m_content c) = None
      | PROGRESS \<Rightarrow>
          m_progress c \<noteq> None \<and> value (m_content c) = None \<and> error (m_content c) = None)"

subsection \<open>Blocking wait\<close>

text \<open>
  \<^verbatim>\<open>wait(valuePred, errorPred)\<close> sleeps on condition variables, so a call is a sequence of
  atomic steps of the calling thread, between which other threads run. A step is either
  the first \<^verbatim>\<open>access\<close> (under the content lock only) or a section that holds
  \<^verbatim>\<open>m_writeLock\<close>, from its acquisition, or from the wakeup that reacquires it, to the
  next \<^verbatim>\<open>QWaitCondition::wait\<close> or the return. The constructors below are the places
  where a thread can be between two steps; each carries the caller's state.
\<close>

datatype 's wait_thread =
    Enter (local_state: 's)
      \<comment> \<open>\<^verbatim>\<open>wait\<close> has been called\<close>
  | Lock (local_state: 's)
      \<comment> \<open>the first \<^verbatim>\<open>access\<close> failed; about to lock \<^verbatim>\<open>m_writeLock\<close>\<close>
  | is_MainWaitValue: MainWaitValue (local_state: 's)
      \<comment> \<open>main waiter, in \<^verbatim>\<open>m_waiter->waitValue.wait\<close>\<close>
  | is_MainWaitSubWaiters: MainWaitSubWaiters (local_state: 's)
      \<comment> \<open>main waiter, in \<^verbatim>\<open>m_waiter->waitSubWaiters.wait\<close>\<close>
  | is_SubWaitValue: SubWaitValue (local_state: 's)
      \<comment> \<open>sub waiter, in \<^verbatim>\<open>m_waiter->waitValue.wait\<close>\<close>
  | Returned (local_state: 's)
      \<comment> \<open>\<^verbatim>\<open>wait\<close> has returned\<close>

text \<open>\<^verbatim>\<open>Waiter theWaiter;\<close>\<close>

definition theWaiter :: Waiter where
  "theWaiter = \<lparr>waitValue = [], subWaiters = 0, waitSubWaiters = []\<rparr>"

text \<open>
  Thread \<open>t\<close> sleeps on a condition variable of the registered waiter. Qt's
  \<^verbatim>\<open>QWaitCondition::wait\<close> returns only after a \<^verbatim>\<open>wakeOne\<close> or \<^verbatim>\<open>wakeAll\<close>.
\<close>

definition sleeps ::
  "tid \<Rightarrow> (Waiter \<Rightarrow> QWaitCondition) \<Rightarrow> ('v, 'e, 'p) AsyncValueTemplate \<Rightarrow> bool" where
  "sleeps t cond c = (case m_waiter c of None \<Rightarrow> False | Some w \<Rightarrow> t \<in> set (cond w))"

text \<open>The scope guard of the main waiter, run when it leaves the block.\<close>

definition main_atExit ::
  "tid \<Rightarrow> ('v, 'e, 'p) AsyncValueTemplate \<Rightarrow> 's
     \<Rightarrow> error + ('v, 'e, 'p) AsyncValueTemplate \<times> 's wait_thread" where
  "main_atExit t c s =
     (case m_waiter c of
        None \<Rightarrow> Inl NullDeref
      | Some w \<Rightarrow>
          if subWaiters w > 0
          then Inr (c\<lparr>m_waiter := Some (w\<lparr>waitSubWaiters := waitSubWaiters w @ [t]\<rparr>)\<rparr>,
                    MainWaitSubWaiters s)
          else Inr (c\<lparr>m_waiter := None\<rparr>, Returned s))"

text \<open>The scope guard of a sub waiter.\<close>

definition sub_atExit ::
  "('v, 'e, 'p) AsyncValueTemplate \<Rightarrow> 's
     \<Rightarrow> error + ('v, 'e, 'p) AsyncValueTemplate \<times> 's wait_thread" where
  "sub_atExit c s =
     (case m_waiter c of
        None \<Rightarrow> Inl NullDeref
      | Some w \<Rightarrow>
          let w' = w\<lparr>subWaiters := subWaiters w - 1\<rparr>;
              w'' = (if subWaiters w' = 0
                     then w'\<lparr>waitSubWaiters := wakeAll (waitSubWaiters w')\<rparr> else w')
          in Inr (c\<lparr>m_waiter := Some w''\<rparr>, Returned s))"

text \<open>
  One step of thread \<open>t\<close> inside \<^verbatim>\<open>wait\<close>. \<open>None\<close>: the thread cannot run (it sleeps, or
  the call has returned). \<open>Some (Inl e)\<close>: the step crashes.
\<close>

fun wait_step ::
  "('v \<Rightarrow> 's \<Rightarrow> 's) \<Rightarrow> ('e \<Rightarrow> 's \<Rightarrow> 's) \<Rightarrow> tid \<Rightarrow> ('v, 'e, 'p) AsyncValueTemplate
     \<Rightarrow> 's wait_thread \<Rightarrow> (error + ('v, 'e, 'p) AsyncValueTemplate \<times> 's wait_thread) option" where
  "wait_step valuePred errorPred t c (Enter s) =
     Some (case access_value_error valuePred errorPred c s of
             Inl x \<Rightarrow> Inl x
           | Inr (res, s') \<Rightarrow> if res then Inr (c, Returned s') else Inr (c, Lock s'))"
| "wait_step valuePred errorPred t c (Lock s) =
     Some (case access_value_error valuePred errorPred c s of
             Inl x \<Rightarrow> Inl x
           | Inr (res, s') \<Rightarrow>
               if res then Inr (c, Returned s')
               else (case m_waiter c of
                       None \<Rightarrow>
                         Inr (c\<lparr>m_waiter := Some (theWaiter\<lparr>waitValue := waitValue theWaiter @ [t]\<rparr>)\<rparr>,
                              MainWaitValue s')
                     | Some w \<Rightarrow>
                         Inr (c\<lparr>m_waiter := Some (w\<lparr>subWaiters := subWaiters w + 1,
                                                      waitValue := waitValue w @ [t]\<rparr>)\<rparr>,
                              SubWaitValue s')))"
| "wait_step valuePred errorPred t c (MainWaitValue s) =
     (if sleeps t waitValue c then None
      else Some (case access_value_error valuePred errorPred c s of
                   Inl x \<Rightarrow> Inl x
                 | Inr (res, s') \<Rightarrow> main_atExit t c s'))"
| "wait_step valuePred errorPred t c (MainWaitSubWaiters s) =
     (if sleeps t waitSubWaiters c then None
      else Some (Inr (c\<lparr>m_waiter := None\<rparr>, Returned s)))"
| "wait_step valuePred errorPred t c (SubWaitValue s) =
     (if sleeps t waitValue c then None
      else Some (case access_value_error valuePred errorPred c s of
                   Inl x \<Rightarrow> Inl x
                 | Inr (res, s') \<Rightarrow> sub_atExit c s'))"
| "wait_step valuePred errorPred t c (Returned s) = None"

text \<open>
  A thread that calls \<^verbatim>\<open>wait\<close> \<open>n\<close> times in a row, each call starting when the previous
  one has returned. The result is where the thread is after the first step of the last
  call it could start: a call that does not return in its first step has left the
  fast path.
\<close>

fun wait_repeatedly ::
  "('v \<Rightarrow> 's \<Rightarrow> 's) \<Rightarrow> ('e \<Rightarrow> 's \<Rightarrow> 's) \<Rightarrow> tid \<Rightarrow> nat \<Rightarrow> ('v, 'e, 'p) AsyncValueTemplate
     \<Rightarrow> 's \<Rightarrow> (error + ('v, 'e, 'p) AsyncValueTemplate \<times> 's wait_thread) option" where
  "wait_repeatedly valuePred errorPred t 0 c s = Some (Inr (c, Returned s))"
| "wait_repeatedly valuePred errorPred t (Suc n) c s =
     (case wait_step valuePred errorPred t c (Enter s) of
        Some (Inr (c', Returned s')) \<Rightarrow> wait_repeatedly valuePred errorPred t n c' s'
      | r \<Rightarrow> r)"

subsection \<open>Threads\<close>

text \<open>
  A system is the cell together with the threads that are inside \<^verbatim>\<open>wait\<close>; thread \<open>t\<close>
  is the \<open>t\<close>-th entry of the list. All of them pass the same two callables. Mutators
  are called from outside these threads.
\<close>

type_synonym ('v, 'e, 'p, 's) system = "('v, 'e, 'p) AsyncValueTemplate \<times> 's wait_thread list"

datatype ('v, 'e, 'p) action = Run tid | Mutate "('v, 'e, 'p) mutation"

definition thread_step ::
  "('v \<Rightarrow> 's \<Rightarrow> 's) \<Rightarrow> ('e \<Rightarrow> 's \<Rightarrow> 's) \<Rightarrow> tid \<Rightarrow> ('v, 'e, 'p, 's) system
     \<Rightarrow> (error + ('v, 'e, 'p, 's) system) option" where
  "thread_step valuePred errorPred t sys =
     (if t < length (snd sys)
      then (case wait_step valuePred errorPred t (fst sys) (snd sys ! t) of
              None \<Rightarrow> None
            | Some (Inl x) \<Rightarrow> Some (Inl x)
            | Some (Inr (c', th')) \<Rightarrow> Some (Inr (c', (snd sys)[t := th'])))
      else None)"

fun action_step ::
  "('v \<Rightarrow> 's \<Rightarrow> 's) \<Rightarrow> ('e \<Rightarrow> 's \<Rightarrow> 's) \<Rightarrow> ('v, 'e, 'p) action \<Rightarrow> ('v, 'e, 'p, 's) system
     \<Rightarrow> (error + ('v, 'e, 'p, 's) system) option" where
  "action_step valuePred errorPred (Run t) sys = thread_step valuePred errorPred t sys"
| "action_step valuePred errorPred (Mutate m) sys = Some (Inr (mutate m (fst sys), snd sys))"

text \<open>
  An interleaving is a list of actions. \<open>None\<close>: the list asks a thread to run that
  cannot. \<open>Some (Inl e)\<close>: the process crashes on the way.
\<close>

fun run ::
  "('v \<Rightarrow> 's \<Rightarrow> 's) \<Rightarrow> ('e \<Rightarrow> 's \<Rightarrow> 's) \<Rightarrow> ('v, 'e, 'p) action list
     \<Rightarrow> ('v, 'e, 'p, 's) system \<Rightarrow> (error + ('v, 'e, 'p, 's) system) option" where
  "run valuePred errorPred [] sys = Some (Inr sys)"
| "run valuePred errorPred (a # as) sys =
     (case action_step valuePred errorPred a sys of
        None \<Rightarrow> None
      | Some (Inl x) \<Rightarrow> Some (Inl x)
      | Some (Inr sys') \<Rightarrow> run valuePred errorPred as sys')"

definition how_many :: "('a \<Rightarrow> bool) \<Rightarrow> 'a list \<Rightarrow> nat" where
  "how_many P xs = length (filter P xs)"

text \<open>
  The threads of the list are all asleep in \<^verbatim>\<open>wait\<close> on a cell in progress: one of them
  is the main waiter, the others are sub waiters, every one of them sleeps on
  \<open>waitValue\<close>, and \<open>subWaiters\<close> has been incremented once for each sub waiter.
\<close>

definition blocked_in_wait ::
  "('v, 'e, 'p) AsyncValueTemplate \<Rightarrow> 's wait_thread list \<Rightarrow> bool" where
  "blocked_in_wait c ts =
     (m_state c = PROGRESS
      \<and> (case m_waiter c of
            None \<Rightarrow> False
          | Some w \<Rightarrow>
              set (waitValue w) = {..<length ts}
              \<and> subWaiters w = of_nat (how_many is_SubWaitValue ts)
              \<and> waitSubWaiters w = [])
      \<and> how_many is_MainWaitValue ts = 1
      \<and> list_all (\<lambda>th. is_MainWaitValue th \<or> is_SubWaitValue th) ts)"

subsection \<open>All waiters asleep, and their release\<close>

text \<open>
  Threads \<open>0\<close> to \<open>k - 1\<close> call \<^verbatim>\<open>wait\<close> one after the other: each makes its first
  \<^verbatim>\<open>access\<close>, then locks, registers and goes to sleep.
\<close>

fun all_call_wait :: "nat \<Rightarrow> ('v, 'e, 'p) action list" where
  "all_call_wait 0 = []"
| "all_call_wait (Suc k) = all_call_wait k @ [Run k, Run k]"

text \<open>
  On a cell in progress, thread \<open>i\<close> and \<open>m_waiter\<close> after the first \<open>k\<close> threads have gone
  to sleep: thread \<open>0\<close> is the main waiter, and \<open>subWaiters\<close> has been incremented \<open>k - 1\<close>
  times.
\<close>

definition registered :: "'s \<Rightarrow> nat \<Rightarrow> nat \<Rightarrow> 's wait_thread" where
  "registered s k i =
     (if i < k then (if i = 0 then MainWaitValue s else SubWaitValue s) else Enter s)"

definition registered_waiter :: "nat \<Rightarrow> Waiter option" where
  "registered_waiter k =
     (if k = 0 then None
      else Some \<lparr>waitValue = [0..<k], subWaiters = of_nat (k - 1), waitSubWaiters = []\<rparr>)"

text \<open>
  The steps the threads still take once the value has arrived: one for a sub waiter, two
  for a main waiter that has not run yet, one for a main waiter that waits for the sub
  waiters.
\<close>

definition pending :: "'s wait_thread list \<Rightarrow> nat" where
  "pending ts =
     how_many is_SubWaitValue ts + 2 * how_many is_MainWaitValue ts
     + how_many is_MainWaitSubWaiters ts"

text \<open>
  What holds of every system reached from threads \<open>ts0\<close>, all asleep, after the value
  \<open>x\<close> has arrived in the cell \<open>c1\<close>: only \<open>m_waiter\<close> changes; a thread is where it was,
  or it has got \<open>x\<close>; \<open>subWaiters\<close> counts the sub waiters that have not run; the waiter is
  registered exactly as long as the main waiter has not returned, and the main waiter
  sleeps on \<open>waitSubWaiters\<close> as long as a sub waiter has not run.
\<close>

definition released_inv ::
  "('v \<Rightarrow> 's \<Rightarrow> 's) \<Rightarrow> 'v \<Rightarrow> ('v, 'e, 'p) AsyncValueTemplate \<Rightarrow> 's wait_thread list
     \<Rightarrow> ('v, 'e, 'p, 's) system \<Rightarrow> bool" where
  "released_inv valuePred x c1 ts0 sys =
     (length (snd sys) = length ts0
      \<and> (fst sys)\<lparr>m_waiter := None\<rparr> = c1\<lparr>m_waiter := None\<rparr>
      \<and> m_state (fst sys) = VALUE \<and> value (m_content (fst sys)) = Some x
      \<and> (\<forall>i<length ts0.
            (is_MainWaitValue (ts0 ! i) \<or> is_SubWaitValue (ts0 ! i))
            \<and> (snd sys ! i = ts0 ! i
               \<or> snd sys ! i = Returned (valuePred x (local_state (ts0 ! i)))
               \<or> snd sys ! i = MainWaitSubWaiters (valuePred x (local_state (ts0 ! i)))))
      \<and> (case m_waiter (fst sys) of
            None \<Rightarrow>
              how_many is_SubWaitValue (snd sys) = 0
              \<and> how_many is_MainWaitValue (snd sys) = 0
              \<and> how_many is_MainWaitSubWaiters (snd sys) = 0
          | Some w \<Rightarrow>
              waitValue w = []
              \<and> unat (subWaiters w) = how_many is_SubWaitValue (snd sys)
              \<and> how_many is_MainWaitValue (snd sys)
                  + how_many is_MainWaitSubWaiters (snd sys) = 1
              \<and> (waitSubWaiters w \<noteq> [] \<longrightarrow> 0 < how_many is_SubWaitValue (snd sys))
              \<and> (\<forall>i<length ts0. is_MainWaitSubWaiters (snd sys ! i)
                     \<and> 0 < how_many is_SubWaitValue (snd sys)
                     \<longrightarrow> i \<in> set (waitSubWaiters w))))"

subsection \<open>Cells used as concrete inputs\<close>

definition no_calls :: "(nat, string, nat) call list" where
  "no_calls = []"

definition cell_value :: "(nat, string, nat) AsyncValueTemplate" where
  "cell_value = AsyncInitByValue 42"

definition cell_error :: "(nat, string, nat) AsyncValueTemplate" where
  "cell_error = AsyncInitByError ''failed''"

text \<open>A cell in progress: the progress instance \<open>3\<close> lives at address \<open>7\<close>.\<close>

definition cell_progress :: "(nat, string, nat) AsyncValueTemplate" where
  "cell_progress = snd (startProgressEmplace 7 3 cell_value)"

text \<open>The operation in progress has delivered its value; \<^verbatim>\<open>stopProgress\<close> has not run yet.\<close>

definition cell_settled :: "(nat, string, nat) AsyncValueTemplate" where
  "cell_settled = emplaceValue 43 cell_progress"

text \<open>
  Two threads asleep in \<^verbatim>\<open>wait\<close> on a cell in progress: thread \<open>0\<close>, the main waiter, in
  \<^verbatim>\<open>waitSubWaiters.wait\<close>, and thread \<open>1\<close>, a sub waiter, in \<^verbatim>\<open>waitValue.wait\<close>. Neither
  has had a callable called.
\<close>

definition two_asleep :: "(nat, string, nat, (nat, string, nat) call list) system" where
  "two_asleep =
     (\<lparr>m_state = PROGRESS,
       m_waiter = Some \<lparr>waitValue = [1], subWaiters = 1, waitSubWaiters = [0]\<rparr>,
       m_content = \<lparr>value = None, error = None\<rparr>, m_progress = Some (8, 4),
       stateChanged = [VALUE, PROGRESS, VALUE, PROGRESS]\<rparr>,
      [MainWaitSubWaiters no_calls, SubWaitValue no_calls])"

section \<open>Unfolding the definitions\<close>

lemmas mutator_defs =
  moveValue_def moveError_def emplaceValue_def emplaceError_def startProgressMove_def
  startProgressEmplace_def stopProgress_def emitStateChanged_def notify_waiters_def
  wakeAll_def Content_empty_def get_def AsyncValueBase_def AsyncInitByValue_def
  AsyncInitByError_def

lemmas access_defs =
  access_def access_value_error_def access_value_def accessError_def accessProgress_def

lemmas example_defs = cell_value_def cell_error_def cell_progress_def cell_settled_def

lemma cell_value_eq:
  "cell_value = \<lparr>m_state = VALUE, m_waiter = None,
     m_content = \<lparr>value = Some 42, error = None\<rparr>, m_progress = None,
     stateChanged = [VALUE]\<rparr>"
  by (simp add: example_defs mutator_defs)

lemma cell_error_eq:
  "cell_error = \<lparr>m_state = ERROR, m_waiter = None,
     m_content = \<lparr>value = None, error = Some ''failed''\<rparr>, m_progress = None,
     stateChanged = [ERROR]\<rparr>"
  by (simp add: example_defs mutator_defs)

lemma cell_progress_eq:
  "cell_progress = \<lparr>m_state = PROGRESS, m_waiter = None,
     m_content = \<lparr>value = None, error = None\<rparr>, m_progress = Some (7, 3),
     stateChanged = [VALUE, PROGRESS]\<rparr>"
  by (simp add: cell_progress_def cell_value_eq mutator_defs)

lemma cell_settled_eq:
  "cell_settled = \<lparr>m_state = VALUE, m_waiter = None,
     m_content = \<lparr>value = Some 43, error = None\<rparr>, m_progress = Some (7, 3),
     stateChanged = [VALUE, PROGRESS, VALUE]\<rparr>"
  by (simp add: cell_settled_def cell_progress_eq mutator_defs)

section \<open>The mutators\<close>

text \<open>
  C5. In state \<open>PROGRESS\<close> a further \<^verbatim>\<open>startProgressMove\<close> returns the null handle and
  the cell is what it was: no content swap, no signal, the state tag still \<open>PROGRESS\<close> and
  the first progress instance still the one the cell owns.
\<close>

theorem startProgressMove_in_progress:
  assumes "m_state c = PROGRESS"
  shows "startProgressMove progress c = (None, c)"
  using assms by (simp add: startProgressMove_def)

theorem startProgressMove_in_progress_witness:
  "m_state cell_progress = PROGRESS
   \<and> startProgressMove (Some (8, 4)) cell_progress = (None, cell_progress)
   \<and> m_progress (snd (startProgressMove (Some (8, 4)) cell_progress)) = Some (7, 3)"
proof -
  have h: "m_state cell_progress = PROGRESS"
    by (simp add: cell_progress_eq)
  show ?thesis
    using h startProgressMove_in_progress [OF h, of "Some (8, 4)"]
    by (simp add: cell_progress_eq)
qed

text \<open>
  C6. In state \<open>PROGRESS\<close> with the progress instance at address \<open>a1\<close>,
  \<^verbatim>\<open>stopProgress\<close> with the address of another instance returns \<open>false\<close> and changes
  nothing: the state stays \<open>PROGRESS\<close> and the instance at \<open>a1\<close> stays the live one.
\<close>

theorem stopProgress_other_handle:
  assumes "m_state c = PROGRESS" and "m_progress c = Some (a1, p1)" and "a2 \<noteq> a1"
  shows "stopProgress (Some a2) c = (False, c)"
  using assms by (simp add: stopProgress_def get_def)

theorem stopProgress_other_handle_witness:
  "m_state cell_progress = PROGRESS \<and> m_progress cell_progress = Some (7, 3) \<and> (9::nat) \<noteq> 7
   \<and> stopProgress (Some 9) cell_progress = (False, cell_progress)"
proof -
  have h1: "m_state cell_progress = PROGRESS" and h2: "m_progress cell_progress = Some (7, 3)"
    by (simp_all add: cell_progress_eq)
  have h3: "(9::nat) \<noteq> 7" by simp
  show ?thesis
    using h1 h2 h3 stopProgress_other_handle [OF h1 h2 h3] by simp
qed

text \<open>
  C10. In a settled state, \<^verbatim>\<open>stopProgress\<close> called with no handle, or with the address of
  the progress instance the cell still retains, returns \<open>true\<close> and resets
  \<open>m_progress\<close>; every other member of the cell is unchanged.
\<close>

theorem stopProgress_settled_releases:
  assumes "m_state c \<noteq> PROGRESS" and "handle = None \<or> handle = get (m_progress c)"
  shows "stopProgress handle c = (True, c\<lparr>m_progress := None\<rparr>)"
  using assms by (auto simp add: stopProgress_def)

theorem stopProgress_settled_releases_witness:
  "m_state cell_settled \<noteq> PROGRESS
   \<and> (Some 7 = None \<or> Some 7 = get (m_progress cell_settled))
   \<and> stopProgress (Some 7) cell_settled
     = (True, \<lparr>m_state = VALUE, m_waiter = None,
               m_content = \<lparr>value = Some 43, error = None\<rparr>, m_progress = None,
               stateChanged = [VALUE, PROGRESS, VALUE]\<rparr>)"
proof -
  have h1: "m_state cell_settled \<noteq> PROGRESS"
    by (simp add: cell_settled_eq)
  have h2: "Some 7 = None \<or> Some 7 = get (m_progress cell_settled)"
    by (simp add: cell_settled_eq get_def)
  show ?thesis
    using h1 h2 stopProgress_settled_releases [OF h1 h2]
    by (simp add: cell_settled_eq)
qed

text \<open>
  C1 reads: in a state other than \<open>PROGRESS\<close>, \<^verbatim>\<open>stopProgress\<close> with any handle, or
  none, fails and changes nothing. The code is the other way round: it refuses the call
  in state \<open>PROGRESS\<close> (\<^verbatim>\<open>"No value or error assigned"\<close>) and otherwise succeeds
  unless a foreign handle is supplied. On the cell whose operation has delivered its value
  the call without handle succeeds and releases the retained progress instance.
\<close>

theorem stopProgress_settled_counterexample:
  "m_state cell_settled \<noteq> PROGRESS
   \<and> fst (stopProgress None cell_settled) = True
   \<and> m_progress cell_settled = Some (7, 3)
   \<and> m_progress (snd (stopProgress None cell_settled)) = None"
  by (simp add: cell_settled_eq stopProgress_def get_def)

text \<open>
  C1, amended. In a state other than \<open>PROGRESS\<close>, \<^verbatim>\<open>stopProgress\<close> fails exactly when
  a handle is supplied that is not the address of the retained progress instance, and a
  failing call leaves the cell unchanged.
\<close>

theorem stopProgress_settled_fails_iff:
  assumes "m_state c \<noteq> PROGRESS"
  shows "(fst (stopProgress handle c) = False
            \<longleftrightarrow> handle \<noteq> None \<and> handle \<noteq> get (m_progress c))
         \<and> (fst (stopProgress handle c) = False \<longrightarrow> snd (stopProgress handle c) = c)"
  using assms by (simp add: stopProgress_def)

theorem stopProgress_settled_fails_iff_witness:
  "m_state cell_settled \<noteq> PROGRESS
   \<and> fst (stopProgress (Some 9) cell_settled) = False
   \<and> snd (stopProgress (Some 9) cell_settled) = cell_settled"
proof -
  have h: "m_state cell_settled \<noteq> PROGRESS"
    by (simp add: cell_settled_eq)
  have g: "Some 9 \<noteq> get (m_progress cell_settled)"
    by (simp add: cell_settled_eq get_def)
  show ?thesis
    using h g stopProgress_settled_fails_iff [OF h, of "Some 9"] by simp
qed

section \<open>Reading the cell\<close>

text \<open>
  C7. When the payload announced by the state tag is present, the three-callable
  \<^verbatim>\<open>access\<close> returns the caller's state after one call of the callable that matches the
  tag, applied to that payload; the other two callables do not occur in the result. Each
  of the overloads with two or one callables returns \<open>true\<close> together with the state after
  one call of the matching callable when the tag is one it expects, and \<open>false\<close> together
  with the unchanged state otherwise.
\<close>

theorem access_invokes_matching_callable:
  "(m_state c = VALUE \<and> value (m_content c) = Some v \<longrightarrow>
      access valuePred errorPred progressPred c s = Inr (valuePred v s)
      \<and> access_value_error valuePred errorPred c s = Inr (True, valuePred v s)
      \<and> access_value valuePred c s = Inr (True, valuePred v s)
      \<and> accessError errorPred c s = Inr (False, s)
      \<and> accessProgress progressPred c s = Inr (False, s))
   \<and> (m_state c = ERROR \<and> error (m_content c) = Some e \<longrightarrow>
      access valuePred errorPred progressPred c s = Inr (errorPred e s)
      \<and> access_value_error valuePred errorPred c s = Inr (True, errorPred e s)
      \<and> access_value valuePred c s = Inr (False, s)
      \<and> accessError errorPred c s = Inr (True, errorPred e s)
      \<and> accessProgress progressPred c s = Inr (False, s))
   \<and> (m_state c = PROGRESS \<and> m_progress c = Some (a, p) \<longrightarrow>
      access valuePred errorPred progressPred c s = Inr (progressPred p s)
      \<and> access_value_error valuePred errorPred c s = Inr (False, s)
      \<and> access_value valuePred c s = Inr (False, s)
      \<and> accessError errorPred c s = Inr (False, s)
      \<and> accessProgress progressPred c s = Inr (True, progressPred p s))"
  by (simp add: access_defs)

theorem access_invokes_matching_callable_witness:
  "(m_state cell_value = VALUE \<and> value (m_content cell_value) = Some 42
    \<and> access logValue logError logProgress cell_value no_calls = Inr [ValueCall 42]
    \<and> access_value_error logValue logError cell_value no_calls = Inr (True, [ValueCall 42])
    \<and> accessProgress logProgress cell_value no_calls = Inr (False, []))
   \<and> (m_state cell_error = ERROR \<and> error (m_content cell_error) = Some ''failed''
    \<and> access logValue logError logProgress cell_error no_calls = Inr [ErrorCall ''failed'']
    \<and> access_value logValue cell_error no_calls = Inr (False, [])
    \<and> accessError logError cell_error no_calls = Inr (True, [ErrorCall ''failed'']))
   \<and> (m_state cell_progress = PROGRESS \<and> m_progress cell_progress = Some (7, 3)
    \<and> access logValue logError logProgress cell_progress no_calls = Inr [ProgressCall 3]
    \<and> access_value_error logValue logError cell_progress no_calls = Inr (False, [])
    \<and> accessProgress logProgress cell_progress no_calls = Inr (True, [ProgressCall 3]))"
proof -
  have v: "m_state cell_value = VALUE \<and> value (m_content cell_value) = Some 42"
    by (simp add: cell_value_eq)
  have e: "m_state cell_error = ERROR \<and> error (m_content cell_error) = Some ''failed''"
    by (simp add: cell_error_eq)
  have p: "m_state cell_progress = PROGRESS \<and> m_progress cell_progress = Some (7, 3)"
    by (simp add: cell_progress_eq)
  show ?thesis
    using v e p
      access_invokes_matching_callable
        [of cell_value 42 logValue logError logProgress no_calls "''x''" 0 0]
      access_invokes_matching_callable
        [of cell_error 0 logValue logError logProgress no_calls "''failed''" 0 0]
      access_invokes_matching_callable
        [of cell_progress 0 logValue logError logProgress no_calls "''x''" 7 3]
    by (simp add: logValue_def logError_def logProgress_def no_calls_def)
qed

text \<open>
  C4. \<^verbatim>\<open>moveValue\<close> and \<^verbatim>\<open>moveError\<close> are total and return no error. From any cell,
  whatever its state, the result has the new tag and a content that consists of the new
  payload only; every \<^verbatim>\<open>access\<close> overload and the first step of \<^verbatim>\<open>wait\<close> deliver the new
  payload to the matching callable once, the overloads for the other variants report no
  match, and nothing of the previous content is left to read.
\<close>

theorem moveValue_moveError_replace:
  "m_state (moveValue (Some v) c) = VALUE
   \<and> m_content (moveValue (Some v) c) = \<lparr>value = Some v, error = None\<rparr>
   \<and> access valuePred errorPred progressPred (moveValue (Some v) c) s = Inr (valuePred v s)
   \<and> access_value_error valuePred errorPred (moveValue (Some v) c) s = Inr (True, valuePred v s)
   \<and> access_value valuePred (moveValue (Some v) c) s = Inr (True, valuePred v s)
   \<and> accessError errorPred (moveValue (Some v) c) s = Inr (False, s)
   \<and> accessProgress progressPred (moveValue (Some v) c) s = Inr (False, s)
   \<and> wait_step valuePred errorPred t (moveValue (Some v) c) (Enter s)
       = Some (Inr (moveValue (Some v) c, Returned (valuePred v s)))
   \<and> m_state (moveError (Some e) c) = ERROR
   \<and> m_content (moveError (Some e) c) = \<lparr>value = None, error = Some e\<rparr>
   \<and> access valuePred errorPred progressPred (moveError (Some e) c) s = Inr (errorPred e s)
   \<and> access_value_error valuePred errorPred (moveError (Some e) c) s = Inr (True, errorPred e s)
   \<and> access_value valuePred (moveError (Some e) c) s = Inr (False, s)
   \<and> accessError errorPred (moveError (Some e) c) s = Inr (True, errorPred e s)
   \<and> accessProgress progressPred (moveError (Some e) c) s = Inr (False, s)
   \<and> wait_step valuePred errorPred t (moveError (Some e) c) (Enter s)
       = Some (Inr (moveError (Some e) c, Returned (errorPred e s)))"
proof -
  have v: "m_state (moveValue (Some v) c) = VALUE"
    "m_content (moveValue (Some v) c) = \<lparr>value = Some v, error = None\<rparr>"
    by (simp_all add: moveValue_def notify_waiters_def emitStateChanged_def Content_empty_def
        split: option.split)
  have e: "m_state (moveError (Some e) c) = ERROR"
    "m_content (moveError (Some e) c) = \<lparr>value = None, error = Some e\<rparr>"
    by (simp_all add: moveError_def notify_waiters_def emitStateChanged_def Content_empty_def
        split: option.split)
  show ?thesis
    by (simp add: v e access_defs)
qed

lemma wait_step_Enter_value:
  "m_state c = VALUE \<Longrightarrow> value (m_content c) = Some v \<Longrightarrow>
   wait_step valuePred errorPred t c (Enter s) = Some (Inr (c, Returned (valuePred v s)))"
  by (simp add: access_value_error_def)

lemma wait_step_Enter_error:
  "m_state c = ERROR \<Longrightarrow> error (m_content c) = Some e \<Longrightarrow>
   wait_step valuePred errorPred t c (Enter s) = Some (Inr (c, Returned (errorPred e s)))"
  by (simp add: access_value_error_def)

lemma wait_repeatedly_value:
  "m_state c = VALUE \<Longrightarrow> value (m_content c) = Some v \<Longrightarrow>
   wait_repeatedly valuePred errorPred t n c s
     = Some (Inr (c, Returned ((valuePred v ^^ n) s)))"
  by (induction n arbitrary: s)
     (simp_all add: wait_step_Enter_value funpow_swap1 del: wait_step.simps)

lemma wait_repeatedly_error:
  "m_state c = ERROR \<Longrightarrow> error (m_content c) = Some e \<Longrightarrow>
   wait_repeatedly valuePred errorPred t n c s
     = Some (Inr (c, Returned ((errorPred e ^^ n) s)))"
  by (induction n arbitrary: s)
     (simp_all add: wait_step_Enter_error funpow_swap1 del: wait_step.simps)

text \<open>
  C8. On a settled cell the first step of \<^verbatim>\<open>wait\<close> is the last one: the call returns
  with the matching callable applied once, and the cell, \<open>m_waiter\<close> included, is
  unchanged, so the thread neither sleeps nor registers a waiter. \<open>n\<close> calls in a row all
  return in their first step, with \<open>n\<close> calls of the callable in total.
\<close>

theorem wait_settled_fast_path:
  "(m_state c = VALUE \<and> value (m_content c) = Some v \<longrightarrow>
      wait_step valuePred errorPred t c (Enter s) = Some (Inr (c, Returned (valuePred v s)))
      \<and> wait_repeatedly valuePred errorPred t n c s
          = Some (Inr (c, Returned ((valuePred v ^^ n) s))))
   \<and> (m_state c = ERROR \<and> error (m_content c) = Some e \<longrightarrow>
      wait_step valuePred errorPred t c (Enter s) = Some (Inr (c, Returned (errorPred e s)))
      \<and> wait_repeatedly valuePred errorPred t n c s
          = Some (Inr (c, Returned ((errorPred e ^^ n) s))))"
  by (simp add: wait_step_Enter_value wait_step_Enter_error wait_repeatedly_value
      wait_repeatedly_error del: wait_step.simps)

theorem wait_settled_fast_path_witness:
  "(m_state cell_value = VALUE \<and> value (m_content cell_value) = Some 42
    \<and> wait_step logValue logError 0 cell_value (Enter no_calls)
        = Some (Inr (cell_value, Returned [ValueCall 42]))
    \<and> wait_repeatedly logValue logError 0 3 cell_value no_calls
        = Some (Inr (cell_value, Returned [ValueCall 42, ValueCall 42, ValueCall 42])))
   \<and> (m_state cell_error = ERROR \<and> error (m_content cell_error) = Some ''failed''
    \<and> wait_step logValue logError 0 cell_error (Enter no_calls)
        = Some (Inr (cell_error, Returned [ErrorCall ''failed'']))
    \<and> wait_repeatedly logValue logError 0 2 cell_error no_calls
        = Some (Inr (cell_error, Returned [ErrorCall ''failed'', ErrorCall ''failed''])))"
proof -
  have v: "m_state cell_value = VALUE \<and> value (m_content cell_value) = Some 42"
    by (simp add: cell_value_eq)
  have e: "m_state cell_error = ERROR \<and> error (m_content cell_error) = Some ''failed''"
    by (simp add: cell_error_eq)
  show ?thesis
    using v e
      wait_settled_fast_path [of cell_value 42 logValue logError 0 no_calls 3 "''x''"]
      wait_settled_fast_path [of cell_error 0 logValue logError 0 no_calls 2 "''failed''"]
    by (simp add: logValue_def logError_def no_calls_def numeral_3_eq_3 numeral_2_eq_2
        del: wait_step.simps wait_repeatedly.simps)
qed

lemma content_matches_state_init:
  "content_matches_state (AsyncInitByValue v)" "content_matches_state (AsyncInitByError e)"
  by (simp_all add: content_matches_state_def mutator_defs)

lemma content_matches_state_mutate:
  "content_matches_state c \<Longrightarrow> content_matches_state (mutate m c)"
  by (cases m)
     (auto simp add: content_matches_state_def mutator_defs
       split: ASYNC_VALUE_STATE.splits option.splits)

lemma content_matches_state_mutate_all:
  "content_matches_state c \<Longrightarrow> content_matches_state (mutate_all ms c)"
  by (induction ms arbitrary: c) (simp_all add: content_matches_state_mutate)

lemma m_progress_moveValue: "m_progress (moveValue v c) = m_progress c"
  by (simp add: moveValue_def notify_waiters_def emitStateChanged_def split: option.split)

lemma m_progress_moveError: "m_progress (moveError e c) = m_progress c"
  by (simp add: moveError_def notify_waiters_def emitStateChanged_def split: option.split)

text \<open>
  C2 reads: a progress instance is owned only while the state is \<open>PROGRESS\<close>, and none is
  present after an operation that leaves the cell settled. \<^verbatim>\<open>moveValue\<close> and \<^verbatim>\<open>moveError\<close>
  swap \<open>m_content\<close> only, and \<open>m_progress\<close> is not part of it: after
  \<^verbatim>\<open>startProgressEmplace\<close> and \<^verbatim>\<open>emplaceValue\<close> the state is \<open>VALUE\<close> and the progress
  instance is still owned.
\<close>

theorem progress_retained_counterexample:
  "m_state (mutate_all [StartProgressEmplace 7 3, EmplaceValue 43] cell_value) = VALUE
   \<and> m_progress (mutate_all [StartProgressEmplace 7 3, EmplaceValue 43] cell_value)
       = Some (7, 3)"
  by (simp add: cell_value_eq mutator_defs)

text \<open>
  C2, amended. On every cell made by a constructor and changed by \<^verbatim>\<open>emplaceValue\<close>,
  \<^verbatim>\<open>emplaceError\<close>, \<^verbatim>\<open>startProgressEmplace\<close> and \<^verbatim>\<open>stopProgress\<close>, a progress instance
  is owned whenever the state is \<open>PROGRESS\<close>. \<^verbatim>\<open>moveValue\<close> and \<^verbatim>\<open>moveError\<close> keep the
  instance; a successful \<^verbatim>\<open>stopProgress\<close> leaves a settled cell that owns none; a
  successful \<^verbatim>\<open>startProgressMove\<close> makes its argument the one instance owned
  (\<open>m_progress\<close> is a single slot, so there is never more than one).
\<close>

theorem progress_ownership:
  fixes c0 c :: "('v, 'e, 'p) AsyncValueTemplate"
  assumes "c0 = AsyncInitByValue v0 \<or> c0 = AsyncInitByError e0"
  shows "(m_state (mutate_all ms c0) = PROGRESS \<longrightarrow> m_progress (mutate_all ms c0) \<noteq> None)
         \<and> m_progress (moveValue v c) = m_progress c
         \<and> m_progress (moveError e c) = m_progress c
         \<and> (fst (stopProgress handle c) \<longrightarrow>
              m_state (snd (stopProgress handle c)) \<noteq> PROGRESS
              \<and> m_progress (snd (stopProgress handle c)) = None)
         \<and> (m_state c \<noteq> PROGRESS \<longrightarrow>
              m_progress (snd (startProgressMove progress c)) = progress)"
proof -
  have "content_matches_state c0"
    using assms content_matches_state_init by auto
  then have "content_matches_state (mutate_all ms c0)"
    by (rule content_matches_state_mutate_all)
  then have 1: "m_state (mutate_all ms c0) = PROGRESS \<longrightarrow> m_progress (mutate_all ms c0) \<noteq> None"
    by (auto simp add: content_matches_state_def)
  have 2: "fst (stopProgress handle c) \<longrightarrow>
              m_state (snd (stopProgress handle c)) \<noteq> PROGRESS
              \<and> m_progress (snd (stopProgress handle c)) = None"
    by (simp add: stopProgress_def)
  have 3: "m_state c \<noteq> PROGRESS \<longrightarrow>
              m_progress (snd (startProgressMove progress c)) = progress"
    by (simp add: startProgressMove_def emitStateChanged_def)
  show ?thesis
    using 1 2 3 by (simp add: m_progress_moveValue m_progress_moveError)
qed

theorem progress_ownership_witness:
  "(cell_value = AsyncInitByValue 42 \<or> cell_value = AsyncInitByError ''x'')
   \<and> m_state (mutate_all [StartProgressEmplace 7 3] cell_value) = PROGRESS
   \<and> m_progress (mutate_all [StartProgressEmplace 7 3] cell_value) \<noteq> None
   \<and> m_progress (moveValue (Some 43) cell_settled) = Some (7, 3)
   \<and> m_progress (moveError (Some ''failed'') cell_settled) = Some (7, 3)
   \<and> fst (stopProgress (Some 7) cell_settled)
   \<and> m_progress (snd (stopProgress (Some 7) cell_settled)) = None
   \<and> m_state cell_settled \<noteq> PROGRESS
   \<and> m_progress (snd (startProgressMove (Some (8, 4)) cell_settled)) = Some (8, 4)"
proof -
  have i: "cell_value = AsyncInitByValue 42 \<or> cell_value = AsyncInitByError ''x''"
    by (simp add: cell_value_def)
  have s: "m_state (mutate_all [StartProgressEmplace 7 3] cell_value) = PROGRESS"
    by (simp add: cell_value_eq mutator_defs)
  have f: "fst (stopProgress (Some 7) cell_settled)"
    by (simp add: cell_settled_eq stopProgress_def get_def)
  have n: "m_state cell_settled \<noteq> PROGRESS"
    by (simp add: cell_settled_eq)
  have p: "m_progress cell_settled = Some (7, 3)"
    by (simp add: cell_settled_eq)
  show ?thesis
    using i s f n p
      progress_ownership [OF i, of "[StartProgressEmplace 7 3]" "Some 43" cell_settled
        "Some ''failed''" "Some 7" "Some (8, 4)"]
    by simp
qed

section \<open>Waiting threads\<close>

lemmas wait_defs =
  thread_step_def access_value_error_def sleeps_def theWaiter_def main_atExit_def
  sub_atExit_def

text \<open>
  C3 reads: a waiter woken on \<open>waitValue\<close> checks again and goes back to sleep until the
  cell is settled, so that its last check succeeds and its callable runs once. The source
  has no loop: after \<^verbatim>\<open>m_waiter->waitValue.wait(&m_writeLock)\<close> it calls
  \<^verbatim>\<open>access\<close> once and asserts the result (\<^verbatim>\<open>"access should succeed"\<close>). Between the
  \<^verbatim>\<open>wakeAll\<close> of a mutator and the moment the woken thread has \<^verbatim>\<open>m_writeLock\<close> again,
  another \<^verbatim>\<open>startProgressEmplace\<close> can take the lock. Below, thread \<open>0\<close> goes to sleep
  as the main waiter and cannot run while it sleeps; then a value arrives, a new operation
  starts, and the thread runs: its \<^verbatim>\<open>wait\<close> returns with no callable called, on a cell
  in progress.
\<close>

theorem wait_returns_unsettled:
  "run logValue logError [Run 0, Run 0] (cell_progress, [Enter no_calls])
   = Some (Inr (cell_progress
                  \<lparr>m_waiter := Some \<lparr>waitValue = [0], subWaiters = 0, waitSubWaiters = []\<rparr>\<rparr>,
                [MainWaitValue []]))
   \<and> run logValue logError [Run 0, Run 0, Run 0] (cell_progress, [Enter no_calls]) = None
   \<and> run logValue logError
        [Run 0, Run 0, Mutate (EmplaceValue 43), Mutate (StartProgressEmplace 8 4), Run 0]
        (cell_progress, [Enter no_calls])
      = Some (Inr (\<lparr>m_state = PROGRESS, m_waiter = None,
                     m_content = \<lparr>value = None, error = None\<rparr>, m_progress = Some (8, 4),
                     stateChanged = [VALUE, PROGRESS, VALUE, PROGRESS]\<rparr>,
                   [Returned []]))"
  by (simp add: cell_progress_eq wait_defs mutator_defs no_calls_def)

subsection \<open>Counting threads\<close>

lemma how_many_update:
  "i < length xs \<Longrightarrow>
   how_many P (xs[i := y]) + (if P (xs ! i) then 1 else 0)
     = how_many P xs + (if P y then 1 else 0)"
proof (induction xs arbitrary: i)
  case Nil
  then show ?case by simp
next
  case (Cons a xs)
  show ?case
  proof (cases i)
    case 0
    then show ?thesis by (simp add: how_many_def)
  next
    case (Suc j)
    with Cons.prems have "j < length xs" by simp
    from Cons.IH [OF this] Suc show ?thesis by (simp add: how_many_def)
  qed
qed

lemma how_many_update_out:
  "i < length xs \<Longrightarrow> P (xs ! i) \<Longrightarrow> \<not> P y \<Longrightarrow>
   Suc (how_many P (xs[i := y])) = how_many P xs"
  using how_many_update [of i xs P y] by simp

lemma how_many_update_same:
  "i < length xs \<Longrightarrow> \<not> P (xs ! i) \<Longrightarrow> \<not> P y \<Longrightarrow>
   how_many P (xs[i := y]) = how_many P xs"
  using how_many_update [of i xs P y] by simp

lemma how_many_update_in:
  "i < length xs \<Longrightarrow> \<not> P (xs ! i) \<Longrightarrow> P y \<Longrightarrow>
   how_many P (xs[i := y]) = Suc (how_many P xs)"
  using how_many_update [of i xs P y] by simp

lemma how_many_pos_nth:
  "0 < how_many P xs \<Longrightarrow> \<exists>i<length xs. P (xs ! i)"
proof -
  assume "0 < how_many P xs"
  then have "filter P xs \<noteq> []" by (simp add: how_many_def)
  then obtain y where "y \<in> set xs" "P y"
    by (auto simp add: filter_empty_conv)
  then show ?thesis by (auto simp add: in_set_conv_nth)
qed

lemma how_many_zero_nth:
  "how_many P xs = 0 \<Longrightarrow> i < length xs \<Longrightarrow> \<not> P (xs ! i)"
  by (auto simp add: how_many_def filter_empty_conv)

lemma how_many_nth_pos:
  "i < length xs \<Longrightarrow> P (xs ! i) \<Longrightarrow> 0 < how_many P xs"
  using nth_mem [of i xs] by (auto simp add: how_many_def filter_empty_conv)

subsection \<open>The invariant of the release\<close>

lemma released_step_sub:
  assumes inv: "released_inv valuePred x c1 ts0 (c, ts)"
    and t: "t < length ts" and st: "ts ! t = SubWaitValue s"
  shows "\<exists>sys'. thread_step valuePred errorPred t (c, ts) = Some (Inr sys')
           \<and> released_inv valuePred x c1 ts0 sys'
           \<and> pending (snd sys') < pending ts"
proof -
  let ?k = "how_many is_SubWaitValue ts"
  have len: "length ts = length ts0"
    using inv by (simp add: released_inv_def)
  have sub: "is_SubWaitValue (ts ! t)" using st by simp
  have kpos: "0 < ?k"
    using t sub by (rule how_many_nth_pos)
  obtain w where w: "m_waiter c = Some w"
    using inv kpos by (cases "m_waiter c") (auto simp add: released_inv_def)
  have wv: "waitValue w = []" and cnt: "unat (subWaiters w) = ?k"
    and mains: "how_many is_MainWaitValue ts
                  + how_many is_MainWaitSubWaiters ts = 1"
    and wsub: "waitSubWaiters w \<noteq> [] \<longrightarrow> 0 < ?k"
    and slp: "\<forall>i<length ts0. is_MainWaitSubWaiters (ts ! i) \<and> 0 < ?k
                \<longrightarrow> i \<in> set (waitSubWaiters w)"
    using inv w by (simp_all add: released_inv_def)
  have val: "m_state c = VALUE" "value (m_content c) = Some x"
    using inv by (simp_all add: released_inv_def)
  have frame: "c\<lparr>m_waiter := None\<rparr> = c1\<lparr>m_waiter := None\<rparr>"
    using inv by (simp add: released_inv_def)
  have val1: "m_state c1 = VALUE" "value (m_content c1) = Some x"
  proof -
    have "m_state (c\<lparr>m_waiter := None\<rparr>) = VALUE"
      "value (m_content (c\<lparr>m_waiter := None\<rparr>)) = Some x"
      using val by simp_all
    then show "m_state c1 = VALUE" "value (m_content c1) = Some x"
      by (simp_all add: frame)
  qed
  have thr: "\<forall>i<length ts0.
            (is_MainWaitValue (ts0 ! i) \<or> is_SubWaitValue (ts0 ! i))
            \<and> (ts ! i = ts0 ! i
               \<or> ts ! i = Returned (valuePred x (local_state (ts0 ! i)))
               \<or> ts ! i = MainWaitSubWaiters (valuePred x (local_state (ts0 ! i))))"
    using inv by (simp add: released_inv_def)
  have t0: "ts0 ! t = SubWaitValue s"
  proof -
    from thr t len have "ts ! t = ts0 ! t
               \<or> ts ! t = Returned (valuePred x (local_state (ts0 ! t)))
               \<or> ts ! t = MainWaitSubWaiters (valuePred x (local_state (ts0 ! t)))"
      by simp
    with st show ?thesis by auto
  qed
  have nz: "subWaiters w \<noteq> 0"
    using cnt kpos by (auto simp add: unat_eq_0)
  have dec: "unat (subWaiters w - 1) = ?k - 1"
    using nz cnt by (simp add: unat_minus_one)
  define w' where "w' = w\<lparr>subWaiters := subWaiters w - 1\<rparr>"
  define w'' where "w'' = (if subWaiters w' = 0
                     then w'\<lparr>waitSubWaiters := wakeAll (waitSubWaiters w')\<rparr> else w')"
  define ts' where "ts' = ts[t := Returned (valuePred x s)]"
  have step: "thread_step valuePred errorPred t (c, ts)
                = Some (Inr (c\<lparr>m_waiter := Some w''\<rparr>, ts'))"
    using t st w wv val
    by (simp add: thread_step_def sleeps_def access_value_error_def sub_atExit_def
        w'_def w''_def ts'_def Let_def)
  have k': "?k = Suc (how_many is_SubWaitValue ts')"
    unfolding ts'_def using t sub by (intro how_many_update_out [symmetric]) simp_all
  have mv': "how_many is_MainWaitValue ts' = how_many is_MainWaitValue ts"
    unfolding ts'_def using t st by (intro how_many_update_same) simp_all
  have ms': "how_many is_MainWaitSubWaiters ts'
               = how_many is_MainWaitSubWaiters ts"
    unfolding ts'_def using t st by (intro how_many_update_same) simp_all
  have sw'': "subWaiters w'' = subWaiters w - 1"
    by (simp add: w''_def w'_def)
  have w''1: "waitValue w'' = []" "unat (subWaiters w'') = ?k - 1"
    using wv apply (simp add: w''_def w'_def)
    using dec by (simp only: sw'')
  have w''2: "waitSubWaiters w'' \<noteq> [] \<longrightarrow> 0 < ?k - 1"
  proof (cases "subWaiters w - 1 = 0")
    case True
    then show ?thesis by (simp add: w''_def w'_def wakeAll_def)
  next
    case False
    then have "unat (subWaiters w - 1) \<noteq> 0" by (simp only: unat_eq_0 not_False_eq_True)
    with dec show ?thesis by simp
  qed
  have w''3: "waitSubWaiters w'' = waitSubWaiters w" if "0 < ?k - 1"
  proof -
    from that dec have "unat (subWaiters w - 1) \<noteq> 0" by simp
    then have "subWaiters w - 1 \<noteq> 0" by (simp only: unat_eq_0 not_False_eq_True)
    then show ?thesis by (simp add: w''_def w'_def)
  qed
  have thr': "\<forall>i<length ts0.
            (is_MainWaitValue (ts0 ! i) \<or> is_SubWaitValue (ts0 ! i))
            \<and> (ts' ! i = ts0 ! i
               \<or> ts' ! i = Returned (valuePred x (local_state (ts0 ! i)))
               \<or> ts' ! i = MainWaitSubWaiters (valuePred x (local_state (ts0 ! i))))"
    using thr t0 t len by (auto simp add: ts'_def nth_list_update)
  have slp': "\<forall>i<length ts0. is_MainWaitSubWaiters (ts' ! i)
                \<and> 0 < how_many is_SubWaitValue ts'
                \<longrightarrow> i \<in> set (waitSubWaiters w'')"
  proof (intro allI impI)
    fix i assume i: "i < length ts0"
      and h: "is_MainWaitSubWaiters (ts' ! i) \<and> 0 < how_many is_SubWaitValue ts'"
    from h k' have pos: "0 < ?k - 1" by simp
    from h i len t have "is_MainWaitSubWaiters (ts ! i)"
      by (auto simp add: ts'_def nth_list_update split: if_splits)
    with slp i kpos have "i \<in> set (waitSubWaiters w)" by simp
    with w''3 [OF pos] show "i \<in> set (waitSubWaiters w'')" by simp
  qed
  have inv': "released_inv valuePred x c1 ts0 (c\<lparr>m_waiter := Some w''\<rparr>, ts')"
    unfolding released_inv_def
    using len frame val val1 thr' w''1 w''2 slp' k' mv' ms' mains
    by (simp add: ts'_def)
  have "pending ts' < pending ts"
    using k' mv' ms' by (simp add: pending_def)
  with step inv' show ?thesis by simp
qed

lemma released_step_main:
  assumes inv: "released_inv valuePred x c1 ts0 (c, ts)"
    and t: "t < length ts" and st: "ts ! t = MainWaitValue s"
  shows "\<exists>sys'. thread_step valuePred errorPred t (c, ts) = Some (Inr sys')
           \<and> released_inv valuePred x c1 ts0 sys'
           \<and> pending (snd sys') < pending ts"
proof -
  let ?k = "how_many is_SubWaitValue ts"
  have len: "length ts = length ts0"
    using inv by (simp add: released_inv_def)
  have mainv: "is_MainWaitValue (ts ! t)" using st by simp
  have mvpos: "0 < how_many is_MainWaitValue ts"
    using t mainv by (rule how_many_nth_pos)
  obtain w where w: "m_waiter c = Some w"
    using inv mvpos by (cases "m_waiter c") (auto simp add: released_inv_def)
  have wv: "waitValue w = []" and cnt: "unat (subWaiters w) = ?k"
    and mains: "how_many is_MainWaitValue ts + how_many is_MainWaitSubWaiters ts = 1"
    and slp: "\<forall>i<length ts0. is_MainWaitSubWaiters (ts ! i) \<and> 0 < ?k
                \<longrightarrow> i \<in> set (waitSubWaiters w)"
    using inv w by (simp_all add: released_inv_def)
  have mv1: "how_many is_MainWaitValue ts = Suc 0" and ms0: "how_many is_MainWaitSubWaiters ts = 0"
    using mains mvpos by simp_all
  have val: "m_state c = VALUE" "value (m_content c) = Some x"
    using inv by (simp_all add: released_inv_def)
  have frame: "c\<lparr>m_waiter := None\<rparr> = c1\<lparr>m_waiter := None\<rparr>"
    using inv by (simp add: released_inv_def)
  have val1: "m_state c1 = VALUE" "value (m_content c1) = Some x"
  proof -
    have "m_state (c\<lparr>m_waiter := None\<rparr>) = VALUE"
      "value (m_content (c\<lparr>m_waiter := None\<rparr>)) = Some x"
      using val by simp_all
    then show "m_state c1 = VALUE" "value (m_content c1) = Some x"
      by (simp_all add: frame)
  qed
  have thr: "\<forall>i<length ts0.
            (is_MainWaitValue (ts0 ! i) \<or> is_SubWaitValue (ts0 ! i))
            \<and> (ts ! i = ts0 ! i
               \<or> ts ! i = Returned (valuePred x (local_state (ts0 ! i)))
               \<or> ts ! i = MainWaitSubWaiters (valuePred x (local_state (ts0 ! i))))"
    using inv by (simp add: released_inv_def)
  have t0: "ts0 ! t = MainWaitValue s"
  proof -
    from thr t len have "ts ! t = ts0 ! t
               \<or> ts ! t = Returned (valuePred x (local_state (ts0 ! t)))
               \<or> ts ! t = MainWaitSubWaiters (valuePred x (local_state (ts0 ! t)))"
      by simp
    with st show ?thesis by auto
  qed
  have pos_iff: "0 < subWaiters w \<longleftrightarrow> 0 < ?k"
    using cnt by (simp add: word_greater_zero_iff unat_gt_0 [symmetric])
  show ?thesis
  proof (cases "0 < ?k")
    case True
    define w' where "w' = w\<lparr>waitSubWaiters := waitSubWaiters w @ [t]\<rparr>"
    define ts' where "ts' = ts[t := MainWaitSubWaiters (valuePred x s)]"
    have step: "thread_step valuePred errorPred t (c, ts)
                  = Some (Inr (c\<lparr>m_waiter := Some w'\<rparr>, ts'))"
      using t st w wv val True pos_iff
      by (simp add: thread_step_def sleeps_def access_value_error_def main_atExit_def
          w'_def ts'_def)
    have k': "how_many is_SubWaitValue ts' = ?k"
      unfolding ts'_def using t st by (intro how_many_update_same) simp_all
    have mv': "how_many is_MainWaitValue ts' = 0"
      using how_many_update_out [of t ts is_MainWaitValue "MainWaitSubWaiters (valuePred x s)"]
        t mainv mv1 by (simp add: ts'_def)
    have ms': "how_many is_MainWaitSubWaiters ts' = Suc 0"
      using how_many_update_in [of t ts is_MainWaitSubWaiters "MainWaitSubWaiters (valuePred x s)"]
        t st ms0 by (simp add: ts'_def)
    have thr': "\<forall>i<length ts0.
            (is_MainWaitValue (ts0 ! i) \<or> is_SubWaitValue (ts0 ! i))
            \<and> (ts' ! i = ts0 ! i
               \<or> ts' ! i = Returned (valuePred x (local_state (ts0 ! i)))
               \<or> ts' ! i = MainWaitSubWaiters (valuePred x (local_state (ts0 ! i))))"
      using thr t0 t len by (auto simp add: ts'_def nth_list_update)
    have slp': "\<forall>i<length ts0. is_MainWaitSubWaiters (ts' ! i)
                \<and> 0 < how_many is_SubWaitValue ts'
                \<longrightarrow> i \<in> set (waitSubWaiters w')"
    proof (intro allI impI)
      fix i assume i: "i < length ts0"
        and h: "is_MainWaitSubWaiters (ts' ! i) \<and> 0 < how_many is_SubWaitValue ts'"
      show "i \<in> set (waitSubWaiters w')"
      proof (cases "i = t")
        case True
        then show ?thesis by (simp add: w'_def)
      next
        case False
        with h i len t have "is_MainWaitSubWaiters (ts ! i)"
          by (simp add: ts'_def)
        with slp i \<open>0 < ?k\<close> have "i \<in> set (waitSubWaiters w)" by simp
        then show ?thesis by (simp add: w'_def)
      qed
    qed
    have w'1: "waitValue w' = []" "unat (subWaiters w') = ?k"
      using wv cnt by (simp_all add: w'_def)
    have inv': "released_inv valuePred x c1 ts0 (c\<lparr>m_waiter := Some w'\<rparr>, ts')"
      unfolding released_inv_def
      using len frame val val1 thr' w'1 slp' k' mv' ms' True
      by (simp add: ts'_def)
    have "pending ts' < pending ts"
      using k' mv' ms' mv1 ms0 by (simp add: pending_def)
    with step inv' show ?thesis by simp
  next
    case False
    then have k0: "?k = 0" by simp
    define ts' where "ts' = ts[t := Returned (valuePred x s)]"
    have step: "thread_step valuePred errorPred t (c, ts)
                  = Some (Inr (c\<lparr>m_waiter := None\<rparr>, ts'))"
      using t st w wv val False pos_iff
      by (simp add: thread_step_def sleeps_def access_value_error_def main_atExit_def ts'_def)
    have k': "how_many is_SubWaitValue ts' = 0"
      using how_many_update_same [of t ts is_SubWaitValue "Returned (valuePred x s)"]
        t st k0 by (simp add: ts'_def)
    have mv': "how_many is_MainWaitValue ts' = 0"
      using how_many_update_out [of t ts is_MainWaitValue "Returned (valuePred x s)"]
        t mainv mv1 by (simp add: ts'_def)
    have ms': "how_many is_MainWaitSubWaiters ts' = 0"
      using how_many_update_same [of t ts is_MainWaitSubWaiters "Returned (valuePred x s)"]
        t st ms0 by (simp add: ts'_def)
    have thr': "\<forall>i<length ts0.
            (is_MainWaitValue (ts0 ! i) \<or> is_SubWaitValue (ts0 ! i))
            \<and> (ts' ! i = ts0 ! i
               \<or> ts' ! i = Returned (valuePred x (local_state (ts0 ! i)))
               \<or> ts' ! i = MainWaitSubWaiters (valuePred x (local_state (ts0 ! i))))"
      using thr t0 t len by (auto simp add: ts'_def nth_list_update)
    have inv': "released_inv valuePred x c1 ts0 (c\<lparr>m_waiter := None\<rparr>, ts')"
      unfolding released_inv_def
      using len frame val val1 thr' k' mv' ms'
      by (simp add: ts'_def)
    have "pending ts' < pending ts"
      using k' mv' ms' mv1 ms0 by (simp add: pending_def)
    with step inv' show ?thesis by simp
  qed
qed

lemma released_step_main_sub:
  assumes inv: "released_inv valuePred x c1 ts0 (c, ts)"
    and t: "t < length ts" and st: "ts ! t = MainWaitSubWaiters s"
    and en: "thread_step valuePred errorPred t (c, ts) = Some r"
  shows "\<exists>sys'. r = Inr sys'
           \<and> released_inv valuePred x c1 ts0 sys'
           \<and> pending (snd sys') < pending ts"
proof -
  let ?k = "how_many is_SubWaitValue ts"
  have len: "length ts = length ts0"
    using inv by (simp add: released_inv_def)
  have mains': "is_MainWaitSubWaiters (ts ! t)" using st by simp
  have mspos: "0 < how_many is_MainWaitSubWaiters ts"
    using t mains' by (rule how_many_nth_pos)
  obtain w where w: "m_waiter c = Some w"
    using inv mspos by (cases "m_waiter c") (auto simp add: released_inv_def)
  have mains: "how_many is_MainWaitValue ts + how_many is_MainWaitSubWaiters ts = 1"
    and slp: "\<forall>i<length ts0. is_MainWaitSubWaiters (ts ! i) \<and> 0 < ?k
                \<longrightarrow> i \<in> set (waitSubWaiters w)"
    using inv w by (simp_all add: released_inv_def)
  have ms1: "how_many is_MainWaitSubWaiters ts = Suc 0" and mv0: "how_many is_MainWaitValue ts = 0"
    using mains mspos by simp_all
  have val: "m_state c = VALUE" "value (m_content c) = Some x"
    using inv by (simp_all add: released_inv_def)
  have frame: "c\<lparr>m_waiter := None\<rparr> = c1\<lparr>m_waiter := None\<rparr>"
    using inv by (simp add: released_inv_def)
  have val1: "m_state c1 = VALUE" "value (m_content c1) = Some x"
  proof -
    have "m_state (c\<lparr>m_waiter := None\<rparr>) = VALUE"
      "value (m_content (c\<lparr>m_waiter := None\<rparr>)) = Some x"
      using val by simp_all
    then show "m_state c1 = VALUE" "value (m_content c1) = Some x"
      by (simp_all add: frame)
  qed
  have thr: "\<forall>i<length ts0.
            (is_MainWaitValue (ts0 ! i) \<or> is_SubWaitValue (ts0 ! i))
            \<and> (ts ! i = ts0 ! i
               \<or> ts ! i = Returned (valuePred x (local_state (ts0 ! i)))
               \<or> ts ! i = MainWaitSubWaiters (valuePred x (local_state (ts0 ! i))))"
    using inv by (simp add: released_inv_def)
  have t0: "s = valuePred x (local_state (ts0 ! t))"
  proof -
    from thr t len have "(is_MainWaitValue (ts0 ! t) \<or> is_SubWaitValue (ts0 ! t))
            \<and> (ts ! t = ts0 ! t
               \<or> ts ! t = Returned (valuePred x (local_state (ts0 ! t)))
               \<or> ts ! t = MainWaitSubWaiters (valuePred x (local_state (ts0 ! t))))"
      by simp
    with st show ?thesis by (cases "ts0 ! t") auto
  qed
  have awake: "t \<notin> set (waitSubWaiters w)"
    using en t st w by (auto simp add: thread_step_def sleeps_def split: if_splits)
  have k0: "?k = 0"
    using slp t len mains' awake by auto
  define ts' where "ts' = ts[t := Returned s]"
  have step: "r = Inr (c\<lparr>m_waiter := None\<rparr>, ts')"
    using en t st w awake by (simp add: thread_step_def sleeps_def ts'_def)
  have k': "how_many is_SubWaitValue ts' = 0"
    using how_many_update_same [of t ts is_SubWaitValue "Returned s"]
      t st k0 by (simp add: ts'_def)
  have mv': "how_many is_MainWaitValue ts' = 0"
    using how_many_update_same [of t ts is_MainWaitValue "Returned s"]
      t st mv0 by (simp add: ts'_def)
  have ms': "how_many is_MainWaitSubWaiters ts' = 0"
    using how_many_update_out [of t ts is_MainWaitSubWaiters "Returned s"]
      t mains' ms1 by (simp add: ts'_def)
  have thr': "\<forall>i<length ts0.
            (is_MainWaitValue (ts0 ! i) \<or> is_SubWaitValue (ts0 ! i))
            \<and> (ts' ! i = ts0 ! i
               \<or> ts' ! i = Returned (valuePred x (local_state (ts0 ! i)))
               \<or> ts' ! i = MainWaitSubWaiters (valuePred x (local_state (ts0 ! i))))"
    using thr t0 t len by (auto simp add: ts'_def nth_list_update)
  have inv': "released_inv valuePred x c1 ts0 (c\<lparr>m_waiter := None\<rparr>, ts')"
    unfolding released_inv_def
    using len frame val val1 thr' k' mv' ms'
    by (simp add: ts'_def)
  have "pending ts' < pending ts"
    using k' mv' ms' mv0 ms1 by (simp add: pending_def)
  with step inv' show ?thesis by simp
qed

lemma released_step:
  assumes inv: "released_inv valuePred x c1 ts0 sys"
    and en: "thread_step valuePred errorPred t sys = Some r"
  shows "\<exists>sys'. r = Inr sys'
           \<and> released_inv valuePred x c1 ts0 sys'
           \<and> pending (snd sys') < pending (snd sys)"
proof -
  obtain c ts where sys: "sys = (c, ts)" by (cases sys)
  have t: "t < length ts"
    using en sys by (simp add: thread_step_def split: if_splits)
  have len: "length ts = length ts0"
    using inv sys by (simp add: released_inv_def)
  have "(is_MainWaitValue (ts0 ! t) \<or> is_SubWaitValue (ts0 ! t))
            \<and> (ts ! t = ts0 ! t
               \<or> ts ! t = Returned (valuePred x (local_state (ts0 ! t)))
               \<or> ts ! t = MainWaitSubWaiters (valuePred x (local_state (ts0 ! t))))"
    using inv sys t len by (simp add: released_inv_def)
  then consider
      (main) s where "ts ! t = MainWaitValue s"
    | (sub) s where "ts ! t = SubWaitValue s"
    | (mainsub) s where "ts ! t = MainWaitSubWaiters s"
    | (ret) s where "ts ! t = Returned s"
    by (cases "ts0 ! t") auto
  then show ?thesis
  proof cases
    case main
    from released_step_main [OF inv [unfolded sys] t main, of errorPred] en sys
    show ?thesis by auto
  next
    case sub
    from released_step_sub [OF inv [unfolded sys] t sub, of errorPred] en sys
    show ?thesis by auto
  next
    case mainsub
    from released_step_main_sub [OF inv [unfolded sys] t mainsub en [unfolded sys]] sys
    show ?thesis by simp
  next
    case ret
    with en sys t have False by (simp add: thread_step_def)
    then show ?thesis ..
  qed
qed

lemma released_progress:
  assumes inv: "released_inv valuePred x c1 ts0 sys"
  shows "(\<exists>t<length ts0. thread_step valuePred errorPred t sys \<noteq> None)
         \<or> (m_waiter (fst sys) = None
            \<and> snd sys = map (\<lambda>th. Returned (valuePred x (local_state th))) ts0)"
proof -
  obtain c ts where sys: "sys = (c, ts)" by (cases sys)
  let ?k = "how_many is_SubWaitValue ts"
  have len: "length ts = length ts0"
    using inv sys by (simp add: released_inv_def)
  have thr: "\<forall>i<length ts0.
            (is_MainWaitValue (ts0 ! i) \<or> is_SubWaitValue (ts0 ! i))
            \<and> (ts ! i = ts0 ! i
               \<or> ts ! i = Returned (valuePred x (local_state (ts0 ! i)))
               \<or> ts ! i = MainWaitSubWaiters (valuePred x (local_state (ts0 ! i))))"
    using inv sys by (simp add: released_inv_def)
  show ?thesis
  proof (cases "m_waiter c")
    case None
    then have zero: "?k = 0" "how_many is_MainWaitValue ts = 0"
      "how_many is_MainWaitSubWaiters ts = 0"
      using inv sys by (simp_all add: released_inv_def)
    have "ts ! i = Returned (valuePred x (local_state (ts0 ! i)))" if i: "i < length ts0" for i
    proof -
      have n: "\<not> is_SubWaitValue (ts ! i)" "\<not> is_MainWaitValue (ts ! i)"
        "\<not> is_MainWaitSubWaiters (ts ! i)"
        using zero i len by (simp_all add: how_many_zero_nth)
      from thr i have "(is_MainWaitValue (ts0 ! i) \<or> is_SubWaitValue (ts0 ! i))
            \<and> (ts ! i = ts0 ! i
               \<or> ts ! i = Returned (valuePred x (local_state (ts0 ! i)))
               \<or> ts ! i = MainWaitSubWaiters (valuePred x (local_state (ts0 ! i))))"
        by simp
      with n show ?thesis by auto
    qed
    then have "ts = map (\<lambda>th. Returned (valuePred x (local_state th))) ts0"
      using len by (intro nth_equalityI) simp_all
    with None sys show ?thesis by simp
  next
    case (Some w)
    then have wv: "waitValue w = []"
      and mains: "how_many is_MainWaitValue ts + how_many is_MainWaitSubWaiters ts = 1"
      and wsub: "waitSubWaiters w \<noteq> [] \<longrightarrow> 0 < ?k"
      using inv sys by (simp_all add: released_inv_def)
    have "\<exists>t<length ts. thread_step valuePred errorPred t (c, ts) \<noteq> None"
    proof (cases "0 < ?k")
      case True
      then obtain t where t: "t < length ts" "is_SubWaitValue (ts ! t)"
        using how_many_pos_nth by blast
      then obtain s where "ts ! t = SubWaitValue s"
        by (cases "ts ! t") simp_all
      with t Some wv have "thread_step valuePred errorPred t (c, ts) \<noteq> None"
        by (simp add: thread_step_def sleeps_def split: sum.split prod.split)
      with t show ?thesis by blast
    next
      case False
      with wsub have empty: "waitSubWaiters w = []" by blast
      from mains have "0 < how_many is_MainWaitValue ts \<or> 0 < how_many is_MainWaitSubWaiters ts"
        by arith
      then show ?thesis
      proof
        assume "0 < how_many is_MainWaitValue ts"
        then obtain t where t: "t < length ts" "is_MainWaitValue (ts ! t)"
          using how_many_pos_nth by blast
        then obtain s where "ts ! t = MainWaitValue s"
          by (cases "ts ! t") simp_all
        with t Some wv have "thread_step valuePred errorPred t (c, ts) \<noteq> None"
          by (simp add: thread_step_def sleeps_def split: sum.split prod.split)
        with t show ?thesis by blast
      next
        assume "0 < how_many is_MainWaitSubWaiters ts"
        then obtain t where t: "t < length ts" "is_MainWaitSubWaiters (ts ! t)"
          using how_many_pos_nth by blast
        then obtain s where "ts ! t = MainWaitSubWaiters s"
          by (cases "ts ! t") simp_all
        with t Some empty have "thread_step valuePred errorPred t (c, ts) \<noteq> None"
          by (simp add: thread_step_def sleeps_def)
        with t show ?thesis by blast
      qed
    qed
    with len sys show ?thesis by auto
  qed
qed

lemma released_run:
  assumes "released_inv valuePred x c1 ts0 sys"
    and "run valuePred errorPred (map Run sched) sys = Some r"
  shows "length sched \<le> pending (snd sys)
         \<and> (\<exists>sys'. r = Inr sys' \<and> released_inv valuePred x c1 ts0 sys')"
  using assms
proof (induction sched arbitrary: sys)
  case Nil
  then show ?case by (cases sys) auto
next
  case (Cons t sched)
  from Cons.prems(2) obtain r1 where r1: "thread_step valuePred errorPred t sys = Some r1"
    by (cases "thread_step valuePred errorPred t sys") simp_all
  from released_step [OF Cons.prems(1) r1] obtain sys1 where
    sys1: "r1 = Inr sys1" "released_inv valuePred x c1 ts0 sys1"
      "pending (snd sys1) < pending (snd sys)"
    by blast
  from Cons.prems(2) r1 sys1(1) have "run valuePred errorPred (map Run sched) sys1 = Some r"
    by simp
  from Cons.IH [OF sys1(2) this] sys1(3) show ?case by auto
qed

lemma how_many_partition:
  "list_all (\<lambda>x. P x \<or> Q x) xs \<Longrightarrow> \<forall>x. \<not> (P x \<and> Q x) \<Longrightarrow>
   how_many P xs + how_many Q xs = length xs"
  by (induction xs) (auto simp add: how_many_def)

lemma how_many_none:
  "list_all (\<lambda>x. \<not> P x) xs \<Longrightarrow> how_many P xs = 0"
  by (induction xs) (auto simp add: how_many_def)

lemma main_or_sub_exclusive:
  "\<not> (is_MainWaitValue th \<and> is_SubWaitValue th)"
  "is_MainWaitValue th \<or> is_SubWaitValue th \<Longrightarrow> \<not> is_MainWaitSubWaiters th"
  by (cases th; simp)+

lemma released_init:
  assumes blocked: "blocked_in_wait c ts" and bound: "length ts \<le> 65536"
  shows "released_inv valuePred x (moveValue (Some x) c) ts (moveValue (Some x) c, ts)"
    and "pending ts = length ts + 1"
proof -
  obtain w where w: "m_waiter c = Some w"
    using blocked by (cases "m_waiter c") (simp_all add: blocked_in_wait_def)
  have cnt: "subWaiters w = of_nat (how_many is_SubWaitValue ts)"
    and mv: "how_many is_MainWaitValue ts = 1"
    and all: "list_all (\<lambda>th. is_MainWaitValue th \<or> is_SubWaitValue th) ts"
    and wsub: "waitSubWaiters w = []"
    using blocked w by (simp_all add: blocked_in_wait_def)
  have part: "how_many is_MainWaitValue ts + how_many is_SubWaitValue ts = length ts"
    using all by (rule how_many_partition) (simp add: main_or_sub_exclusive)
  with mv have k: "how_many is_SubWaitValue ts = length ts - 1" by simp
  have "list_all (\<lambda>th. \<not> is_MainWaitSubWaiters th) ts"
    using all main_or_sub_exclusive(2) by (auto simp add: list_all_iff)
  then have ms: "how_many is_MainWaitSubWaiters ts = 0"
    by (rule how_many_none)
  have "how_many is_SubWaitValue ts < 2 ^ LENGTH(16)"
    using k bound mv by simp
  then have un: "unat (subWaiters w) = how_many is_SubWaitValue ts"
    by (simp add: cnt unat_of_nat)
  have thr: "\<forall>i<length ts. is_MainWaitValue (ts ! i) \<or> is_SubWaitValue (ts ! i)"
    using all by (simp add: list_all_length)
  have nms: "\<forall>i<length ts. \<not> is_MainWaitSubWaiters (ts ! i)"
    using thr main_or_sub_exclusive(2) by blast
  show "released_inv valuePred x (moveValue (Some x) c) ts (moveValue (Some x) c, ts)"
    unfolding released_inv_def
    using w un mv ms thr wsub nms
    by (simp add: moveValue_def notify_waiters_def emitStateChanged_def wakeAll_def
        Content_empty_def)
  show "pending ts = length ts + 1"
    using part mv ms by (simp add: pending_def)
qed

subsection \<open>Going to sleep\<close>

lemma run_append:
  "run valuePred errorPred (as @ bs) sys =
     (case run valuePred errorPred as sys of
        None \<Rightarrow> None
      | Some (Inl x) \<Rightarrow> Some (Inl x)
      | Some (Inr sys') \<Rightarrow> run valuePred errorPred bs sys')"
  by (induction as arbitrary: sys) (simp_all split: option.split sum.split)

lemma registered_waiter_Suc:
  "registered_waiter (Suc k) =
     (case registered_waiter k of
        None \<Rightarrow> Some (theWaiter\<lparr>waitValue := waitValue theWaiter @ [k]\<rparr>)
      | Some w \<Rightarrow> Some (w\<lparr>subWaiters := subWaiters w + 1, waitValue := waitValue w @ [k]\<rparr>))"
  by (cases k) (simp_all add: registered_waiter_def theWaiter_def)

lemma registered_update:
  assumes "k < n"
  shows "(map (registered s k) [0..<n])[k := registered s (Suc k) k]
           = map (registered s (Suc k)) [0..<n]"
  using assms
  by (intro nth_equalityI) (auto simp add: nth_list_update registered_def)

lemma call_wait_one:
  assumes "k < n" and "m_state c = PROGRESS"
  shows "run valuePred errorPred [Run k, Run k]
           (c\<lparr>m_waiter := registered_waiter k\<rparr>, map (registered s k) [0..<n])
         = Some (Inr (c\<lparr>m_waiter := registered_waiter (Suc k)\<rparr>,
                      map (registered s (Suc k)) [0..<n]))"
proof -
  let ?ts = "map (registered s k) [0..<n]"
  have k: "?ts ! k = Enter s"
    using assms(1) by (simp add: registered_def)
  have 1: "thread_step valuePred errorPred k (c\<lparr>m_waiter := registered_waiter k\<rparr>, ?ts)
             = Some (Inr (c\<lparr>m_waiter := registered_waiter k\<rparr>, ?ts[k := Lock s]))"
    using assms k by (simp add: thread_step_def access_value_error_def)
  have l: "(?ts[k := Lock s]) ! k = Lock s"
    using assms(1) by simp
  have r: "registered s (Suc k) k = (if k = 0 then MainWaitValue s else SubWaitValue s)"
    by (simp add: registered_def)
  have 2: "thread_step valuePred errorPred k
             (c\<lparr>m_waiter := registered_waiter k\<rparr>, ?ts[k := Lock s])
           = Some (Inr (c\<lparr>m_waiter := registered_waiter (Suc k)\<rparr>,
                        ?ts[k := registered s (Suc k) k]))"
  proof (cases k)
    case 0
    then show ?thesis
      using assms l
      by (simp add: thread_step_def access_value_error_def registered_waiter_def theWaiter_def
          registered_def)
  next
    case (Suc j)
    then show ?thesis
      using assms l
      by (simp add: thread_step_def access_value_error_def registered_waiter_def registered_def)
  qed
  show ?thesis
    using 1 2 registered_update [OF assms(1), of s] by simp
qed

lemma all_call_wait_registered:
  assumes "m_state c = PROGRESS" and "k \<le> n"
  shows "run valuePred errorPred (all_call_wait k)
           (c\<lparr>m_waiter := None\<rparr>, replicate n (Enter s))
         = Some (Inr (c\<lparr>m_waiter := registered_waiter k\<rparr>, map (registered s k) [0..<n]))"
  using assms(2)
proof (induction k)
  case 0
  have "map (registered s 0) [0..<n] = replicate n (Enter s)"
    by (intro nth_equalityI) (simp_all add: registered_def)
  then show ?case by (simp add: registered_waiter_def)
next
  case (Suc k)
  then have "k < n" by simp
  from call_wait_one [OF this assms(1), of valuePred errorPred s] Suc
  show ?case by (simp add: run_append del: run.simps)
qed

lemma registered_all:
  assumes "0 < n"
  shows "map (registered s n) [0..<n] = MainWaitValue s # replicate (n - 1) (SubWaitValue s)"
  using assms
  by (intro nth_equalityI) (auto simp add: registered_def nth_Cons')

lemma how_many_registered:
  assumes "0 < n"
  shows "how_many is_SubWaitValue (map (registered s n) [0..<n]) = n - 1"
    and "how_many is_MainWaitValue (map (registered s n) [0..<n]) = 1"
    and "list_all (\<lambda>th. is_MainWaitValue th \<or> is_SubWaitValue th) (map (registered s n) [0..<n])"
  by (simp_all add: registered_all [OF assms] how_many_def list_all_iff)

lemma registered_blocked:
  assumes "0 < n" and "m_state c = PROGRESS"
  shows "blocked_in_wait (c\<lparr>m_waiter := registered_waiter n\<rparr>) (map (registered s n) [0..<n])"
  using assms
  by (simp add: blocked_in_wait_def registered_waiter_def how_many_registered
      atLeast0LessThan)

lemma overflow_crash:
  assumes "2 \<le> n" and "of_nat (n - 1) = (0::16 word)" and "m_state c = PROGRESS"
  shows "run valuePred errorPred [Mutate (EmplaceValue x), Run 0, Run 1]
           (c\<lparr>m_waiter := registered_waiter n\<rparr>, map (registered s n) [0..<n])
         = Some (Inl NullDeref)"
proof -
  let ?ts = "map (registered s n) [0..<n]"
  let ?c1 = "emplaceValue x (c\<lparr>m_waiter := registered_waiter n\<rparr>)"
  have w: "m_waiter ?c1 = Some \<lparr>waitValue = [], subWaiters = 0, waitSubWaiters = []\<rparr>"
    and v: "m_state ?c1 = VALUE" "value (m_content ?c1) = Some x"
    using assms
    by (simp_all add: mutator_defs registered_waiter_def)
  have t0: "?ts ! 0 = MainWaitValue s" and t1: "?ts ! 1 = SubWaitValue s"
    using assms(1) by (simp_all add: registered_def)
  have 1: "thread_step valuePred errorPred 0 (?c1, ?ts)
             = Some (Inr (?c1\<lparr>m_waiter := None\<rparr>, ?ts[0 := Returned (valuePred x s)]))"
    using assms(1) w v t0
    by (simp add: thread_step_def sleeps_def access_value_error_def main_atExit_def)
  have t1': "(?ts[0 := Returned (valuePred x s)]) ! 1 = SubWaitValue s"
    using assms(1) t1 by simp
  have 2: "thread_step valuePred errorPred 1
             (?c1\<lparr>m_waiter := None\<rparr>, ?ts[0 := Returned (valuePred x s)])
           = Some (Inl NullDeref)"
    using assms(1) v t1'
    by (simp add: thread_step_def sleeps_def access_value_error_def sub_atExit_def)
  show ?thesis
    using 1 2 by simp
qed

subsection \<open>Release of the waiters\<close>

text \<open>
  C9. With \<open>N\<close> threads asleep in \<^verbatim>\<open>wait\<close> on a cell in progress, one \<^verbatim>\<open>setValue\<close> is to
  wake them all and hand the value to the value callable of each. The code does not do
  that for a main waiter that was woken before and found the cell in progress again: it
  called \<^verbatim>\<open>access\<close> once, in vain (the assertion \<^verbatim>\<open>"access should succeed"\<close> is violated),
  and is now in its scope guard, asleep on \<open>waitSubWaiters\<close> until the sub waiters are
  gone. Below, thread \<open>0\<close> goes to sleep as the main waiter, a value arrives, a new
  operation starts, thread \<open>1\<close> calls \<^verbatim>\<open>wait\<close> and goes to sleep as a sub waiter, and thread
  \<open>0\<close> runs and goes to sleep again. Both threads are now asleep and the cell is in
  progress. After one \<^verbatim>\<open>emplaceValue\<close> thread \<open>0\<close> still cannot run before thread \<open>1\<close>
  has; thread \<open>1\<close> gets the value; thread \<open>0\<close> returns and none of its callables has
  been called.
\<close>

theorem waiter_returns_without_value:
  "run logValue logError
     [Run 0, Run 0, Mutate (EmplaceValue 43), Mutate (StartProgressEmplace 8 4),
      Run 1, Run 1, Run 0]
     (cell_progress, [Enter no_calls, Enter no_calls])
   = Some (Inr two_asleep)
   \<and> m_state (fst two_asleep) = PROGRESS
   \<and> thread_step logValue logError 0 two_asleep = None
   \<and> thread_step logValue logError 1 two_asleep = None
   \<and> run logValue logError [Mutate (EmplaceValue 44), Run 0] two_asleep = None
   \<and> run logValue logError [Mutate (EmplaceValue 44), Run 1, Run 0] two_asleep
      = Some (Inr (\<lparr>m_state = VALUE, m_waiter = None,
                     m_content = \<lparr>value = Some 44, error = None\<rparr>, m_progress = Some (8, 4),
                     stateChanged = [VALUE, PROGRESS, VALUE, PROGRESS, VALUE]\<rparr>,
                   [Returned [], Returned [ValueCall 44]]))"
  by (simp add: two_asleep_def cell_progress_eq wait_defs mutator_defs no_calls_def
      logValue_def)

subsection \<open>Sleepers on the value condition\<close>

text \<open>
  When every thread sleeps on \<open>waitValue\<close> and \<open>subWaiters\<close> has not wrapped, the release
  works. Let such threads be given, and let \<^verbatim>\<open>moveValue\<close> deliver \<open>x\<close>. Then every
  interleaving of steps of these threads has at most one step more than there are
  threads and does not crash. In the system it reaches, \<open>m_waiter\<close> is reset only when no
  sub waiter is left to run, and either some thread can take a step, or every thread has
  returned with its value callable applied once to \<open>x\<close> and \<open>m_waiter\<close> is null again.
\<close>

lemma sleepers_released:
  assumes "blocked_in_wait c ts" and "length ts \<le> 65536"
    and "run valuePred errorPred (map Run sched) (moveValue (Some x) c, ts) = Some r"
  shows "length sched \<le> length ts + 1
         \<and> (\<exists>c' ts'. r = Inr (c', ts')
              \<and> c'\<lparr>m_waiter := None\<rparr> = (moveValue (Some x) c)\<lparr>m_waiter := None\<rparr>
              \<and> (m_waiter c' = None \<longrightarrow> how_many is_SubWaitValue ts' = 0)
              \<and> ((\<exists>t<length ts. thread_step valuePred errorPred t (c', ts') \<noteq> None)
                 \<or> (m_waiter c' = None
                    \<and> ts' = map (\<lambda>th. Returned (valuePred x (local_state th))) ts)))"
proof -
  let ?c1 = "moveValue (Some x) c"
  have inv: "released_inv valuePred x ?c1 ts (?c1, ts)" and p: "pending ts = length ts + 1"
    using released_init [OF assms(1) assms(2)] by simp_all
  from released_run [OF inv assms(3)] obtain sys' where
    len: "length sched \<le> pending ts" and r: "r = Inr sys'"
    and inv': "released_inv valuePred x ?c1 ts sys'"
    by auto
  obtain c' ts' where sys': "sys' = (c', ts')" by (cases sys')
  have frame: "c'\<lparr>m_waiter := None\<rparr> = ?c1\<lparr>m_waiter := None\<rparr>"
    using inv' sys' by (simp add: released_inv_def)
  have drained: "m_waiter c' = None \<longrightarrow> how_many is_SubWaitValue ts' = 0"
    using inv' sys' by (cases "m_waiter c'") (simp_all add: released_inv_def)
  from released_progress [OF inv', of errorPred] sys'
  have "(\<exists>t<length ts. thread_step valuePred errorPred t (c', ts') \<noteq> None)
        \<or> (m_waiter c' = None
           \<and> ts' = map (\<lambda>th. Returned (valuePred x (local_state th))) ts)"
    by simp
  with len p r sys' frame drained show ?thesis by simp
qed

lemma sleepers_released_example:
  "blocked_in_wait (cell_progress\<lparr>m_waiter := registered_waiter 3\<rparr>)
     (map (registered no_calls 3) [0..<3])
   \<and> length (map (registered no_calls 3) [0..<3]) \<le> 65536
   \<and> run logValue logError (map Run [0, 2, 1, 0])
        (moveValue (Some 43) (cell_progress\<lparr>m_waiter := registered_waiter 3\<rparr>),
         map (registered no_calls 3) [0..<3])
      = Some (Inr (\<lparr>m_state = VALUE, m_waiter = None,
                     m_content = \<lparr>value = Some 43, error = None\<rparr>, m_progress = Some (7, 3),
                     stateChanged = [VALUE, PROGRESS, VALUE]\<rparr>,
                   [Returned [ValueCall 43], Returned [ValueCall 43], Returned [ValueCall 43]]))
   \<and> length [0, 2, 1, 0 :: nat] \<le> length (map (registered no_calls 3) [0..<3]) + 1
   \<and> [Returned [ValueCall 43], Returned [ValueCall 43], Returned [ValueCall 43]]
      = map (\<lambda>th. Returned (logValue 43 (local_state th))) (map (registered no_calls 3) [0..<3])"
proof -
  have p: "m_state cell_progress = PROGRESS"
    by (simp add: cell_progress_eq)
  have b: "blocked_in_wait (cell_progress\<lparr>m_waiter := registered_waiter 3\<rparr>)
     (map (registered no_calls 3) [0..<3])"
    by (rule registered_blocked [OF _ p]) simp
  have l: "length (map (registered no_calls 3) [0..<3]) \<le> 65536"
    by simp
  have ts: "map (registered no_calls 3) [0..<3]
              = [MainWaitValue [], SubWaitValue [], SubWaitValue []]"
    by (simp add: registered_def no_calls_def numeral_3_eq_3)
  have r: "run logValue logError (map Run [0, 2, 1, 0])
        (moveValue (Some 43) (cell_progress\<lparr>m_waiter := registered_waiter 3\<rparr>),
         map (registered no_calls 3) [0..<3])
      = Some (Inr (\<lparr>m_state = VALUE, m_waiter = None,
                     m_content = \<lparr>value = Some 43, error = None\<rparr>, m_progress = Some (7, 3),
                     stateChanged = [VALUE, PROGRESS, VALUE]\<rparr>,
                   [Returned [ValueCall 43], Returned [ValueCall 43], Returned [ValueCall 43]]))"
    unfolding ts
    by (simp add: cell_progress_eq registered_waiter_def wait_defs mutator_defs logValue_def)
  have m: "[Returned [ValueCall 43], Returned [ValueCall 43], Returned [ValueCall 43]]
      = map (\<lambda>th. Returned (logValue 43 (local_state th))) (map (registered no_calls 3) [0..<3])"
    unfolding ts by (simp add: logValue_def)
  have n: "length [0, 2, 1, 0 :: nat] \<le> length (map (registered no_calls 3) [0..<3]) + 1"
    using sleepers_released [OF b l r] by (simp only:)
  from b l r n m show ?thesis
    by (intro conjI)
qed

text \<open>
  \<open>subWaiters\<close> is a \<^verbatim>\<open>quint16\<close>. With \<open>65536\<close> sub waiters it has wrapped to \<open>0\<close>: the
  main waiter, when it runs first, does not wait for the sub waiters and resets
  \<open>m_waiter\<close>, and the first sub waiter that runs dereferences the null \<open>m_waiter\<close> in its
  scope guard.
\<close>

lemma subWaiters_wraps:
  "run logValue logError (all_call_wait 65537)
     (cell_progress, replicate 65537 (Enter no_calls))
   = Some (Inr (cell_progress\<lparr>m_waiter := registered_waiter 65537\<rparr>,
                map (registered no_calls 65537) [0..<65537]))
   \<and> blocked_in_wait (cell_progress\<lparr>m_waiter := registered_waiter 65537\<rparr>)
        (map (registered no_calls 65537) [0..<65537])
   \<and> run logValue logError [Mutate (EmplaceValue 43), Run 0, Run 1]
        (cell_progress\<lparr>m_waiter := registered_waiter 65537\<rparr>,
         map (registered no_calls 65537) [0..<65537])
      = Some (Inl NullDeref)"
proof -
  have p: "m_state cell_progress = PROGRESS"
    by (simp add: cell_progress_eq)
  have n: "cell_progress\<lparr>m_waiter := None\<rparr> = cell_progress"
    by (simp add: cell_progress_eq)
  have a: "run logValue logError (all_call_wait 65537)
     (cell_progress\<lparr>m_waiter := None\<rparr>, replicate 65537 (Enter no_calls))
   = Some (Inr (cell_progress\<lparr>m_waiter := registered_waiter 65537\<rparr>,
                map (registered no_calls 65537) [0..<65537]))"
    by (rule all_call_wait_registered [OF p]) simp
  have b: "blocked_in_wait (cell_progress\<lparr>m_waiter := registered_waiter 65537\<rparr>)
        (map (registered no_calls 65537) [0..<65537])"
    by (rule registered_blocked [OF _ p]) simp
  have c: "run logValue logError [Mutate (EmplaceValue 43), Run 0, Run 1]
        (cell_progress\<lparr>m_waiter := registered_waiter 65537\<rparr>,
         map (registered no_calls 65537) [0..<65537])
      = Some (Inl NullDeref)"
    by (rule overflow_crash [OF _ _ p]) simp_all
  from a [unfolded n] b c show ?thesis by (intro conjI)
qed

end
